theory Spec2Isabelle
  imports Complex_Main "HOL-Library.Word"
begin

unbundle bit_operations_syntax

section \<open>Machine types\<close>

text \<open>
  The encoder is C compiled as C++ for Android: \<open>unsigned char\<close> is 8 bits,
  \<open>unsigned short\<close> 16 bits, \<open>int\<close> and \<open>uint32_t\<close> 32 bits. Bytes and
  shorts are words, so that every conversion to them truncates as the C conversion does.
  Values of type \<open>int\<close> are HOL integers where they stay inside the 32-bit range:
  the quality, table indices and code counters on every run, and quantised coefficients
  under the ranges the theorems state. What depends on the width and the height of the
  caller's image, the pixel offset and the counters of the loops over the MCUs, is
  computed with its range checked.
\<close>

type_synonym byte = "8 word"
type_synonym ushort = "16 word"

section \<open>Transport encoding (image\_processor.cpp)\<close>

definition base64_chars :: string where
  "base64_chars = ''ABCDEFGHIJKLMNOPQRSTUVWXYZabcdefghijklmnopqrstuvwxyz0123456789+/''"

text \<open>
  \<open>i < len ? data[i++] : 0\<close>: the octet read (widened to \<open>uint32_t\<close>) and the
  index after the read. The index moves only when a byte is there.
\<close>

definition next_octet :: "byte list \<Rightarrow> nat \<Rightarrow> 32 word \<times> nat" where
  "next_octet data i = (if i < length data then (ucast (data ! i), i + 1) else (0, i))"

definition b64_char :: "32 word \<Rightarrow> char" where
  "b64_char v = base64_chars ! unat (v AND 0x3F)"

text \<open>One pass of the \<open>while (i < len)\<close> body: the four characters and the new index.\<close>

definition encode_group :: "byte list \<Rightarrow> nat \<Rightarrow> string \<times> nat" where
  "encode_group data i =
     (let len = length data;
          (octet_a, i1) = next_octet data i;
          (octet_b, i2) = next_octet data i1;
          (octet_c, i3) = next_octet data i2;
          triple = push_bit 16 octet_a + push_bit 8 octet_b + octet_c
      in ([b64_char (drop_bit 18 triple),
           b64_char (drop_bit 12 triple),
           (if i3 > len + 1 then CHR ''='' else b64_char (drop_bit 6 triple)),
           (if i3 > len then CHR ''='' else b64_char triple)], i3))"

lemma next_octet_mono: "i \<le> snd (next_octet data i)"
  by (simp add: next_octet_def)

lemma next_octet_step: "i < length data \<Longrightarrow> i < snd (next_octet data i)"
  by (simp add: next_octet_def)

lemma encode_group_step: "i < length data \<Longrightarrow> i < snd (encode_group data i)"
proof -
  assume lt: "i < length data"
  obtain a i1 where a: "next_octet data i = (a, i1)" by (cases "next_octet data i")
  obtain b i2 where b: "next_octet data i1 = (b, i2)" by (cases "next_octet data i1")
  obtain c i3 where c: "next_octet data i2 = (c, i3)" by (cases "next_octet data i2")
  have "i < i1" using next_octet_step [OF lt] a by simp
  moreover have "i1 \<le> i2" using next_octet_mono [of i1 data] b by simp
  moreover have "i2 \<le> i3" using next_octet_mono [of i2 data] c by simp
  ultimately show ?thesis by (simp add: encode_group_def a b c Let_def)
qed

function encode_loop :: "byte list \<Rightarrow> nat \<Rightarrow> string \<Rightarrow> string" where
  "encode_loop data i result =
     (if i < length data
      then encode_loop data (snd (encode_group data i)) (result @ fst (encode_group data i))
      else result)"
  by pat_completeness auto
termination
proof (relation "measure (\<lambda>(data, i, result). length data - i)")
  show "wf (measure (\<lambda>(data, i, result). length data - i))" by simp
next
  fix data :: "byte list" and i :: nat and result :: string
  assume "i < length data"
  then show "((data, snd (encode_group data i), result @ fst (encode_group data i)),
              (data, i, result)) \<in> measure (\<lambda>(data, i, result). length data - i)"
    using encode_group_step [of i data] by simp
qed

definition base64Encode :: "byte list \<Rightarrow> string" where
  "base64Encode data = encode_loop data 0 []"

text \<open>
  \<open>memset(decodeTable, -1, ...)\<close>, then \<open>decodeTable[base64_chars[i]] = i\<close> for
  \<open>i = 0 .. 63\<close>.
\<close>

definition decodeTable :: "char \<Rightarrow> int" where
  "decodeTable = fold (\<lambda>i t. t(base64_chars ! i := int i)) [0..<64] (\<lambda>_. - 1)"

text \<open>
  The range-for over the characters. \<open>val\<close> is a 32-bit \<open>int\<close> that keeps every
  sextet shifted in, so it is a word and the shift wraps; \<open>(val >> valb) & 0xFF\<close> is the
  arithmetic shift, truncated to the byte pushed.
\<close>

fun decode_loop :: "string \<Rightarrow> 32 word \<Rightarrow> int \<Rightarrow> byte list \<Rightarrow> byte list" where
  "decode_loop [] val valb result = result"
| "decode_loop (c # cs) val valb result =
     (if decodeTable c = - 1 then result
      else
        (let val' = push_bit 6 val + word_of_int (decodeTable c);
             valb' = valb + 6
         in if valb' \<ge> 0
            then decode_loop cs val' (valb' - 8)
                   (result @ [ucast (signed_drop_bit (nat valb') val' AND 0xFF)])
            else decode_loop cs val' valb' result))"

definition base64Decode :: "string \<Rightarrow> byte list" where
  "base64Decode encoded = (if encoded = [] then [] else decode_loop encoded 0 (- 8) [])"

section \<open>Quality, subsampling and the quantisation divisors (stb\_image\_write.h)\<close>

definition YQT :: "int list" where
  "YQT = [16,11,10,16,24,40,51,61,12,12,14,19,26,58,60,55,14,13,16,24,40,57,69,56,
          14,17,22,29,51,87,80,62,18,22,37,56,68,109,103,77,24,35,55,64,81,104,113,92,
          49,64,78,87,103,121,120,101,72,92,95,98,112,100,103,99]"

definition UVQT :: "int list" where
  "UVQT = [17,18,24,47,99,99,99,99,18,21,26,66,99,99,99,99,24,26,56,99,99,99,99,99,
           47,66,99,99,99,99,99,99,99,99,99,99,99,99,99,99,99,99,99,99,99,99,99,99,
           99,99,99,99,99,99,99,99,99,99,99,99,99,99,99,99]"

text \<open>Line 194: \<open>quality = quality ? quality : 90\<close>.\<close>

definition quality_default :: "int \<Rightarrow> int" where
  "quality_default quality = (if quality \<noteq> 0 then quality else 90)"

text \<open>Line 195, on the defaulted quality and before the clamp.\<close>

definition subsample_of :: "int \<Rightarrow> bool" where
  "subsample_of quality = (quality_default quality \<le> 90)"

text \<open>Line 196: the clamp to 1 .. 100.\<close>

definition quality_clamp :: "int \<Rightarrow> int" where
  "quality_clamp quality = (if quality < 1 then 1 else if quality > 100 then 100 else quality)"

text \<open>
  Line 197, on the clamped quality: \<open>5000 / quality\<close> is C's truncating division of
  two positive values, which is \<open>div\<close>.
\<close>

definition quality_scale :: "int \<Rightarrow> int" where
  "quality_scale quality =
     (let q = quality_clamp (quality_default quality)
      in if q < 50 then 5000 div q else 200 - q * 2)"

text \<open>
  Lines 200 and 203 to 205: the divisor of one base value. Base values and scale are
  not negative, so \<open>/ 100\<close> is \<open>div\<close>.
\<close>

definition divisor :: "int \<Rightarrow> int \<Rightarrow> int" where
  "divisor b scale =
     (let t = (b * scale + 50) div 100
      in if t < 1 then 1 else if t > 255 then 255 else t)"

definition yti :: "int \<Rightarrow> nat \<Rightarrow> int" where
  "yti quality i = divisor (YQT ! i) (quality_scale quality)"

definition uvti :: "int \<Rightarrow> nat \<Rightarrow> int" where
  "uvti quality i = divisor (UVQT ! i) (quality_scale quality)"

section \<open>The bit writer (stb\_image\_write.h, lines 31 to 53)\<close>

text \<open>
  The state threaded through every call: \<open>bitBuf\<close> and \<open>bitCnt\<close> (locals of the
  encoder, passed by pointer) and the bytes the sink has received so far. \<open>bitBuf\<close> is
  an \<open>int\<close> whose high bits are shifted out by \<open>bitBuf <<= 8\<close>, so it is a 32-bit
  word; \<open>bitCnt\<close> stays below 8 plus the length of one code.
\<close>

record bit_writer =
  bitBuf :: "32 word"
  bitCnt :: int
  sink :: "byte list"

text \<open>A code to write: \<open>bs[0]\<close> holds the bits, \<open>bs[1]\<close> their number.\<close>

type_synonym bits = "ushort \<times> ushort"

text \<open>
  \<open>while (bitCnt >= 8)\<close>: \<open>c = (bitBuf >> 16) & 255\<close> with the arithmetic shift of
  a signed \<open>int\<close>, \<open>putc c\<close>, and \<open>putc 0\<close> after a byte 255.
\<close>

function writeBits_loop :: "32 word \<Rightarrow> int \<Rightarrow> byte list \<Rightarrow> 32 word \<times> int \<times> byte list" where
  "writeBits_loop buf cnt out =
     (if cnt \<ge> 8
      then
        (let c = (ucast (signed_drop_bit 16 buf AND 255) :: byte);
             out1 = out @ [c];
             out2 = (if c = 255 then out1 @ [0] else out1)
         in writeBits_loop (push_bit 8 buf) (cnt - 8) out2)
      else (buf, cnt, out))"
  by pat_completeness auto
termination
  by (relation "measure (\<lambda>(buf, cnt, out). nat cnt)") auto

text \<open>
  \<open>bitCnt += bs[1]; bitBuf |= bs[0] << (24 - bitCnt)\<close>, then the loop. The shift count
  is not negative on any call the encoder makes from a pending count below 8 with a code
  of at most 16 bits; C leaves a negative count undefined, and the model shifts by 0 there.
\<close>

definition writeBits :: "bit_writer \<Rightarrow> bits \<Rightarrow> bit_writer" where
  "writeBits w bs =
     (let cnt = bitCnt w + uint (snd bs);
          buf = bitBuf w OR push_bit (nat (24 - cnt)) (ucast (fst bs));
          (buf', cnt', out') = writeBits_loop buf cnt (sink w)
      in \<lparr>bitBuf = buf', bitCnt = cnt', sink = out'\<rparr>)"

text \<open>Byte stuffing, as a property of a byte sequence: each 255 has a 0 right after it.\<close>

fun stuffed :: "byte list \<Rightarrow> bool" where
  "stuffed [] = True"
| "stuffed [x] = (x \<noteq> 255)"
| "stuffed (x # y # zs) = (if x = 255 then y = 0 \<and> stuffed zs else stuffed (y # zs))"

text \<open>
  What one pass of the loop sends: the byte, and a 0 after a 255. The \<open>k\<close>-th byte
  taken from a buffer is the byte at bits 16 to 23 after \<open>k\<close> shifts by 8.
\<close>

definition stuff_byte :: "byte \<Rightarrow> byte list" where
  "stuff_byte c = (if c = 255 then [c, 0] else [c])"

definition top_byte :: "32 word \<Rightarrow> nat \<Rightarrow> byte" where
  "top_byte buf k = ucast (drop_bit 16 (push_bit (8 * k) buf))"

section \<open>Huffman tables (stb\_image\_write.h, lines 144 to 181)\<close>

definition std_dc_luminance_nrcodes :: "nat list" where
  "std_dc_luminance_nrcodes = [0,0,1,5,1,1,1,1,1,1,0,0,0,0,0,0,0]"

definition std_dc_luminance_values :: "nat list" where
  "std_dc_luminance_values = [0,1,2,3,4,5,6,7,8,9,10,11]"

definition std_ac_luminance_nrcodes :: "nat list" where
  "std_ac_luminance_nrcodes = [0,0,2,1,3,3,2,4,3,5,5,4,4,0,0,1,0x7d]"

definition std_ac_luminance_values :: "nat list" where
  "std_ac_luminance_values =
    [0x01,0x02,0x03,0x00,0x04,0x11,0x05,0x12,0x21,0x31,0x41,0x06,0x13,0x51,0x61,0x07,0x22,0x71,0x14,0x32,0x81,0x91,0xa1,0x08,
     0x23,0x42,0xb1,0xc1,0x15,0x52,0xd1,0xf0,0x24,0x33,0x62,0x72,0x82,0x09,0x0a,0x16,0x17,0x18,0x19,0x1a,0x25,0x26,0x27,0x28,
     0x29,0x2a,0x34,0x35,0x36,0x37,0x38,0x39,0x3a,0x43,0x44,0x45,0x46,0x47,0x48,0x49,0x4a,0x53,0x54,0x55,0x56,0x57,0x58,0x59,
     0x5a,0x63,0x64,0x65,0x66,0x67,0x68,0x69,0x6a,0x73,0x74,0x75,0x76,0x77,0x78,0x79,0x7a,0x83,0x84,0x85,0x86,0x87,0x88,0x89,
     0x8a,0x92,0x93,0x94,0x95,0x96,0x97,0x98,0x99,0x9a,0xa2,0xa3,0xa4,0xa5,0xa6,0xa7,0xa8,0xa9,0xaa,0xb2,0xb3,0xb4,0xb5,0xb6,
     0xb7,0xb8,0xb9,0xba,0xc2,0xc3,0xc4,0xc5,0xc6,0xc7,0xc8,0xc9,0xca,0xd2,0xd3,0xd4,0xd5,0xd6,0xd7,0xd8,0xd9,0xda,0xe1,0xe2,
     0xe3,0xe4,0xe5,0xe6,0xe7,0xe8,0xe9,0xea,0xf1,0xf2,0xf3,0xf4,0xf5,0xf6,0xf7,0xf8,0xf9,0xfa]"

definition std_dc_chrominance_nrcodes :: "nat list" where
  "std_dc_chrominance_nrcodes = [0,0,3,1,1,1,1,1,1,1,1,1,0,0,0,0,0]"

definition std_dc_chrominance_values :: "nat list" where
  "std_dc_chrominance_values = [0,1,2,3,4,5,6,7,8,9,10,11]"

definition std_ac_chrominance_nrcodes :: "nat list" where
  "std_ac_chrominance_nrcodes = [0,0,2,1,2,4,4,3,4,7,5,4,4,0,1,2,0x77]"

definition std_ac_chrominance_values :: "nat list" where
  "std_ac_chrominance_values =
    [0x00,0x01,0x02,0x03,0x11,0x04,0x05,0x21,0x31,0x06,0x12,0x41,0x51,0x07,0x61,0x71,0x13,0x22,0x32,0x81,0x08,0x14,0x42,0x91,
     0xa1,0xb1,0xc1,0x09,0x23,0x33,0x52,0xf0,0x15,0x62,0x72,0xd1,0x0a,0x16,0x24,0x34,0xe1,0x25,0xf1,0x17,0x18,0x19,0x1a,0x26,
     0x27,0x28,0x29,0x2a,0x35,0x36,0x37,0x38,0x39,0x3a,0x43,0x44,0x45,0x46,0x47,0x48,0x49,0x4a,0x53,0x54,0x55,0x56,0x57,0x58,
     0x59,0x5a,0x63,0x64,0x65,0x66,0x67,0x68,0x69,0x6a,0x73,0x74,0x75,0x76,0x77,0x78,0x79,0x7a,0x82,0x83,0x84,0x85,0x86,0x87,
     0x88,0x89,0x8a,0x92,0x93,0x94,0x95,0x96,0x97,0x98,0x99,0x9a,0xa2,0xa3,0xa4,0xa5,0xa6,0xa7,0xa8,0xa9,0xaa,0xb2,0xb3,0xb4,
     0xb5,0xb6,0xb7,0xb8,0xb9,0xba,0xc2,0xc3,0xc4,0xc5,0xc6,0xc7,0xc8,0xc9,0xca,0xd2,0xd3,0xd4,0xd5,0xd6,0xd7,0xd8,0xd9,0xda,
     0xe2,0xe3,0xe4,0xe5,0xe6,0xe7,0xe8,0xe9,0xea,0xf2,0xf3,0xf4,0xf5,0xf6,0xf7,0xf8,0xf9,0xfa]"

text \<open>
  A table \<open>unsigned short htable[256][2]\<close>: the code and its length for each symbol.
  The state of \<open>buildHuffmanTable\<close> is the table with the counters \<open>k\<close> and \<open>code\<close>;
  \<open>code\<close> is an \<open>int\<close> below \<open>2^25\<close> for any counts that fit \<open>unsigned char\<close>,
  and the stores truncate it to \<open>unsigned short\<close>.
\<close>

type_synonym htable = "nat \<Rightarrow> bits"

text \<open>\<open>for (i = 1; i <= nrcodes[j]; i++)\<close>, with \<open>n = nrcodes[j]\<close>.\<close>

function build_inner :: "nat list \<Rightarrow> nat \<Rightarrow> nat \<Rightarrow> nat \<Rightarrow> htable \<times> nat \<times> int \<Rightarrow> htable \<times> nat \<times> int" where
  "build_inner std_table n j i (htable, k, code) =
     (if i \<le> n
      then build_inner std_table n j (i + 1)
             (htable(std_table ! k := (word_of_int code, word_of_nat j)), k + 1, code + 1)
      else (htable, k, code))"
  by pat_completeness auto
termination
  by (relation "measure (\<lambda>(std_table, n, j, i, s). n + 1 - i)") auto

text \<open>\<open>for (j = 1; j <= 16; j++)\<close>, with \<open>code *= 2\<close> after each length.\<close>

function build_outer :: "nat list \<Rightarrow> nat list \<Rightarrow> nat \<Rightarrow> htable \<times> nat \<times> int \<Rightarrow> htable \<times> nat \<times> int" where
  "build_outer nrcodes std_table j s =
     (if j \<le> 16
      then
        (let (htable, k, code) = build_inner std_table (nrcodes ! j) j 1 s
         in build_outer nrcodes std_table (j + 1) (htable, k, code * 2))
      else s)"
  by pat_completeness auto
termination
  by (relation "measure (\<lambda>(nrcodes, std_table, j, s). 17 - j)") auto

definition buildHuffmanTable :: "nat list \<Rightarrow> nat list \<Rightarrow> htable \<Rightarrow> htable" where
  "buildHuffmanTable nrcodes std_table htable =
     fst (build_outer nrcodes std_table 1 (htable, 0, 0))"

text \<open>
  The canonical code in the words of the specification: walking the lengths from \<open>j\<close>
  on, the symbols of one length get consecutive values from the running counter, which
  is doubled after each length. The list is in value order, one pair (code, length) for
  each symbol; the argument is the list of counts for the lengths \<open>j\<close>, \<open>j + 1\<close>, ...
\<close>

fun canonical_codes :: "nat list \<Rightarrow> nat \<Rightarrow> int \<Rightarrow> (int \<times> nat) list" where
  "canonical_codes [] j code = []"
| "canonical_codes (n # ns) j code =
     map (\<lambda>i. (code + int i, j)) [0..<n] @ canonical_codes ns (Suc j) ((code + int n) * 2)"

text \<open>
  Canonical order of a list of codes: from one entry to the next the length does not
  decrease, and the next code is the successor, shifted left by the growth of the length.
\<close>

fun canonical_order :: "(int \<times> nat) list \<Rightarrow> bool" where
  "canonical_order [] = True"
| "canonical_order [x] = True"
| "canonical_order ((c, l) # (c', l') # xs) =
     (l \<le> l' \<and> c' = (c + 1) * 2 ^ (l' - l) \<and> canonical_order ((c', l') # xs))"

text \<open>
  Storing a list of codes for the symbols of a value-order table from position \<open>k\<close>
  on: the symbol at position \<open>k\<close> receives the first pair, and so on, each truncated to
  \<open>unsigned short\<close> as the stores of the encoder are.
\<close>

fun store_codes :: "nat list \<Rightarrow> nat \<Rightarrow> (int \<times> nat) list \<Rightarrow> htable \<Rightarrow> htable" where
  "store_codes std_table k [] h = h"
| "store_codes std_table k ((c, l) # cs) h =
     store_codes std_table (Suc k) cs (h(std_table ! k := (word_of_int c, word_of_nat l)))"

text \<open>The four pairs of tables the encoder builds from.\<close>

definition std_tables :: "(nat list \<times> nat list) list" where
  "std_tables =
     [(std_dc_luminance_nrcodes, std_dc_luminance_values),
      (std_ac_luminance_nrcodes, std_ac_luminance_values),
      (std_dc_chrominance_nrcodes, std_dc_chrominance_values),
      (std_ac_chrominance_nrcodes, std_ac_chrominance_values)]"

text \<open>
  What makes a pair of tables well formed: 17 counts, one code for each value, no value
  twice, and each code fits its length, which is at most 16.
\<close>

definition table_ok :: "nat list \<times> nat list \<Rightarrow> bool" where
  "table_ok t =
     (let cc = canonical_codes (tl (fst t)) 1 0
      in length (fst t) = 17 \<and> length cc = length (snd t) \<and> distinct (snd t)
         \<and> list_all (\<lambda>(c, l). 0 \<le> c \<and> c < 2 ^ l \<and> l \<le> 16) cc)"

text \<open>
  A list of codes continues a run: its first code is the counter \<open>code\<close> of length
  \<open>j\<close>, shifted to the length of the entry, and each entry is followed in the same way
  by the successor of its code.
\<close>

fun follows :: "int \<Rightarrow> nat \<Rightarrow> (int \<times> nat) list \<Rightarrow> bool" where
  "follows code j [] = True"
| "follows code j ((c, l) # xs) = (j \<le> l \<and> c = code * 2 ^ (l - j) \<and> follows (c + 1) l xs)"

section \<open>The block encoder (stb\_image\_write.h, lines 71 to 142)\<close>

text \<open>
  \<open>calcBits\<close>. \<open>tmp1\<close> is the absolute value, so never negative, and
  \<open>while (tmp1 >>= 1) ++bits[1]\<close> counts its binary digits after the first. The mask
  is taken on the \<open>int\<close>, and the store to \<open>bits[0]\<close> truncates to
  \<open>unsigned short\<close>.
\<close>

function calcBits_loop :: "nat \<Rightarrow> nat \<Rightarrow> nat" where
  "calcBits_loop tmp1 n =
     (let t = drop_bit 1 tmp1 in if t \<noteq> 0 then calcBits_loop t (n + 1) else n)"
  by pat_completeness auto
termination
  by (relation "measure (\<lambda>(tmp1, n). tmp1)") (auto simp add: drop_bit_eq_div)

definition calcBits :: "int \<Rightarrow> bits" where
  "calcBits val =
     (let tmp1 = nat (if val < 0 then - val else val);
          val' = (if val < 0 then val - 1 else val);
          n = calcBits_loop tmp1 1
      in (word_of_int (val' AND (push_bit n 1 - 1)), word_of_nat n))"

text \<open>
  What \<open>processDU\<close> hands to \<open>writeBits\<close>, in order: an entry of the DC table, an
  entry of the AC table (both named by their index, the symbol), or the bits that
  \<open>calcBits\<close> computed. \<open>EOB\<close> is the entry \<open>0x00\<close> of the AC table and
  \<open>M16zeroes\<close> its entry \<open>0xF0\<close>.
\<close>

datatype item = DCcode nat | ACcode nat | Raw bits

fun item_bits :: "htable \<Rightarrow> htable \<Rightarrow> item \<Rightarrow> bits" where
  "item_bits HTDC HTAC (DCcode s) = HTDC s"
| "item_bits HTDC HTAC (ACcode s) = HTAC s"
| "item_bits HTDC HTAC (Raw b) = b"

text \<open>
  Lines 101 to 109, the DC term. \<open>DU\<close> holds the 64 quantised coefficients in zigzag
  order, the result of lines 87 to 99 (the floating-point transform and rounding), and
  \<open>DC\<close> is the predictor passed in.
\<close>

definition dc_items :: "int \<Rightarrow> int list \<Rightarrow> item list" where
  "dc_items DC DU =
     (let diff = DU ! 0 - DC
      in if diff = 0 then [DCcode 0]
         else (let bits = calcBits diff in [DCcode (unat (snd bits)), Raw bits]))"

text \<open>Line 112: \<open>for (; (end0pos > 0) && (DU[end0pos] == 0); --end0pos)\<close>.\<close>

function end0pos_loop :: "int list \<Rightarrow> nat \<Rightarrow> nat" where
  "end0pos_loop DU end0pos =
     (if end0pos > 0 \<and> DU ! end0pos = 0 then end0pos_loop DU (end0pos - 1) else end0pos)"
  by pat_completeness auto
termination
  by (relation "measure (\<lambda>(DU, end0pos). end0pos)") auto

text \<open>Line 122: \<open>for (; DU[i] == 0 && i <= end0pos; ++i)\<close>.\<close>

function skip_zeroes :: "int list \<Rightarrow> nat \<Rightarrow> nat \<Rightarrow> nat" where
  "skip_zeroes DU end0pos i =
     (if DU ! i = 0 \<and> i \<le> end0pos then skip_zeroes DU end0pos (i + 1) else i)"
  by pat_completeness auto
termination
  by (relation "measure (\<lambda>(DU, end0pos, i). end0pos + 1 - i)") auto

declare skip_zeroes.simps [simp del]

lemma skip_zeroes_ge: "i \<le> skip_zeroes DU end0pos i"
proof (induction DU end0pos i rule: skip_zeroes.induct)
  case (1 DU end0pos i)
  show ?case
  proof (cases "DU ! i = 0 \<and> i \<le> end0pos")
    case True
    then have "i + 1 \<le> skip_zeroes DU end0pos (i + 1)" by (rule "1.IH")
    then show ?thesis using True by (subst skip_zeroes.simps) simp
  next
    case False
    show ?thesis by (subst skip_zeroes.simps) (simp only: False if_False order_refl)
  qed
qed

text \<open>
  Lines 119 to 137: \<open>for (i = 1; i <= end0pos; ++i)\<close>. One pass skips the zeros, writes
  \<open>M16zeroes\<close> once for each 16 of them, then the AC entry \<open>(nrzeroes << 4) + bits[1]\<close>
  and the bits of the coefficient it stopped at.
\<close>

function ac_loop :: "int list \<Rightarrow> nat \<Rightarrow> nat \<Rightarrow> item list" where
  "ac_loop DU end0pos i =
     (if i \<le> end0pos
      then
        (let startpos = i;
             i' = skip_zeroes DU end0pos i;
             nrzeroes = i' - startpos;
             markers = (if nrzeroes \<ge> 16 then replicate (drop_bit 4 nrzeroes) (ACcode 0xF0) else []);
             nrzeroes' = (if nrzeroes \<ge> 16 then nrzeroes AND 15 else nrzeroes);
             bits = calcBits (DU ! i')
         in markers @ [ACcode (push_bit 4 nrzeroes' + unat (snd bits)), Raw bits]
              @ ac_loop DU end0pos (i' + 1))
      else [])"
  by pat_completeness auto
termination
proof (relation "measure (\<lambda>(DU, end0pos, i). end0pos + 1 - i)")
  show "wf (measure (\<lambda>(DU, end0pos, i). end0pos + 1 - i))" by simp
next
  fix DU :: "int list" and end0pos i x xa :: nat
  assume "i \<le> end0pos" and "x = i" and "xa = skip_zeroes DU end0pos i"
  then show "((DU, end0pos, xa + 1), (DU, end0pos, i)) \<in> measure (\<lambda>(DU, end0pos, i). end0pos + 1 - i)"
    using skip_zeroes_ge [of i DU end0pos] by simp
qed

text \<open>Lines 111 to 140, the AC terms.\<close>

definition ac_items :: "int list \<Rightarrow> item list" where
  "ac_items DU =
     (let end0pos = end0pos_loop DU 63
      in if end0pos = 0 then [ACcode 0x00]
         else ac_loop DU end0pos 1 @ (if end0pos \<noteq> 63 then [ACcode 0x00] else []))"

text \<open>
  \<open>processDU\<close> from line 101 on: the writer after the DC and the AC terms, and the
  value returned, \<open>DU[0]\<close>.
\<close>

definition processDU :: "bit_writer \<Rightarrow> int list \<Rightarrow> int \<Rightarrow> htable \<Rightarrow> htable \<Rightarrow> bit_writer \<times> int" where
  "processDU w DU DC HTDC HTAC =
     (foldl writeBits w (map (item_bits HTDC HTAC) (dc_items DC DU @ ac_items DU)), DU ! 0)"

subsection \<open>The block encoder in the words of the specification\<close>

text \<open>The number of bits that represent a magnitude.\<close>

fun bit_length :: "nat \<Rightarrow> nat" where
  "bit_length n = (if n = 0 then 0 else Suc (bit_length (n div 2)))"

definition size_of :: "int \<Rightarrow> nat" where
  "size_of v = bit_length (nat \<bar>v\<bar>)"

text \<open>The magnitude bits: the value itself, or \<open>v - 1\<close> masked to the size when negative.\<close>

definition magnitude :: "int \<Rightarrow> int" where
  "magnitude v = (if v < 0 then take_bit (size_of v) (v - 1) else v)"

text \<open>
  The AC terms, scanning the coefficients left with the length of the current run of
  zeros: end of block when all that is left is zero; else a zero lengthens the run, and
  a nonzero value is written after one \<open>ZRL\<close> for each full 16 of the run, as the
  symbol \<open>(run << 4) | size\<close> of the rest of the run and its magnitude bits.
\<close>

fun ac_spec :: "nat \<Rightarrow> int list \<Rightarrow> item list" where
  "ac_spec run [] = []"
| "ac_spec run (v # vs) =
     (if list_all (\<lambda>x. x = 0) (v # vs) then [ACcode 0x00]
      else if v = 0 then ac_spec (run + 1) vs
      else replicate (run div 16) (ACcode 0xF0)
           @ [ACcode (push_bit 4 (run mod 16) OR size_of v),
              Raw (word_of_int (magnitude v), word_of_nat (size_of v))]
           @ ac_spec 0 vs)"

text \<open>
  The same scan as the codes handed to the bit writer, for an AC table \<open>HTAC\<close>: the
  entry \<open>0x00\<close> for the end of block, the entry \<open>0xF0\<close> for each ZRL, and for a
  nonzero value the entry \<open>(run << 4) | size\<close> followed by its \<open>size\<close> magnitude bits.
\<close>

fun ac_codes :: "htable \<Rightarrow> nat \<Rightarrow> int list \<Rightarrow> bits list" where
  "ac_codes HTAC run [] = []"
| "ac_codes HTAC run (v # vs) =
     (if list_all (\<lambda>x. x = 0) (v # vs) then [HTAC 0x00]
      else if v = 0 then ac_codes HTAC (run + 1) vs
      else replicate (run div 16) (HTAC 0xF0)
           @ [HTAC (push_bit 4 (run mod 16) OR size_of v),
              (word_of_int (magnitude v), word_of_nat (size_of v))]
           @ ac_codes HTAC 0 vs)"

section \<open>The stream assembler (stb\_image\_write.h, lines 183 to 311)\<close>

definition ZigZag :: "nat list" where
  "ZigZag = [0,1,5,6,14,15,27,28,2,4,7,13,16,26,29,42,3,8,12,17,25,30,41,43,9,11,18,
     24,31,40,44,53,10,19,23,32,39,45,52,54,20,22,33,38,46,51,55,60,21,34,37,47,50,56,59,61,
     35,36,48,49,57,58,62,63]"

text \<open>
  A pixel as the colour conversion reads it (lines 256 and 290): the bytes \<open>dataR[p]\<close>,
  \<open>dataG[p]\<close> and \<open>dataB[p]\<close>.
\<close>

type_synonym pixel = "byte \<times> byte \<times> byte"

text \<open>
  The floating-point stage (the arithmetic of the colour conversion, the averaging of
  the chroma, the transform in place and the rounding of lines 87 to 99, 257 to 259, 268
  to 275 and 291 to 293) is a parameter of the model: \<open>quant divisors pixels k\<close> is the
  block \<open>DU\<close> of 64 quantised coefficients that \<open>processDU\<close> computes for data unit
  \<open>k\<close> of an MCU from the pixels read for that MCU, in the order of \<open>pos\<close>, and the
  64 divisors of its channel class. What is uninitialised in C, the four table arrays
  before they are built, is the parameter \<open>stack\<close>.
\<close>

type_synonym quantiser = "int list \<Rightarrow> pixel list \<Rightarrow> nat \<Rightarrow> int list"

text \<open>The tables of lines 190 and 199 to 213.\<close>

definition divisors_Y :: "int \<Rightarrow> int list" where
  "divisors_Y quality = map (yti quality) [0..<64]"

definition divisors_UV :: "int \<Rightarrow> int list" where
  "divisors_UV quality = map (uvti quality) [0..<64]"

text \<open>Lines 201 and 202 clear the first 64 entries of the two DC tables.\<close>

definition clear64 :: "htable \<Rightarrow> htable" where
  "clear64 h = (\<lambda>i. if i < 64 then (0, 0) else h i)"

definition YDC_HT :: "(nat \<Rightarrow> htable) \<Rightarrow> htable" where
  "YDC_HT stack = buildHuffmanTable std_dc_luminance_nrcodes std_dc_luminance_values (clear64 (stack 0))"

definition UDC_HT :: "(nat \<Rightarrow> htable) \<Rightarrow> htable" where
  "UDC_HT stack = buildHuffmanTable std_dc_chrominance_nrcodes std_dc_chrominance_values (clear64 (stack 1))"

definition YAC_HT :: "(nat \<Rightarrow> htable) \<Rightarrow> htable" where
  "YAC_HT stack = buildHuffmanTable std_ac_luminance_nrcodes std_ac_luminance_values (stack 2)"

definition UAC_HT :: "(nat \<Rightarrow> htable) \<Rightarrow> htable" where
  "UAC_HT stack = buildHuffmanTable std_ac_chrominance_nrcodes std_ac_chrominance_values (stack 3)"

text \<open>The header, lines 216 to 236, in the order of the calls of the sink.\<close>

definition head0 :: "byte list" where
  "head0 = [0xFF,0xD8,0xFF,0xE0,0,0x10,0x4A,0x46,0x49,0x46,0,1,1,0,0,1,0,1,0,0,0xFF,0xDB,0,0x84,0]"

definition head2 :: "byte list" where
  "head2 = [0xFF,0xDA,0,0xC,3,1,0,2,0x11,3,0x11,0,0x3F,0]"

definition head1 :: "int \<Rightarrow> int \<Rightarrow> bool \<Rightarrow> byte list" where
  "head1 width height subsample =
     [0xFF,0xC0,0,0x11,8,
      word_of_int (drop_bit 8 height), word_of_int (height AND 0xff),
      word_of_int (drop_bit 8 width), word_of_int (width AND 0xff),
      3,1,(if subsample then 0x22 else 0x11),0,2,0x11,1,3,0x11,1,0xFF,0xC4,0x01,0xA2,0]"

definition header :: "int \<Rightarrow> int \<Rightarrow> bool \<Rightarrow> byte list" where
  "header width height subsample =
     head0
     @ map (\<lambda>i. word_of_int (YQT ! (ZigZag ! i))) [0..<64]
     @ [0x01]
     @ map (\<lambda>i. word_of_int (UVQT ! (ZigZag ! i))) [0..<64]
     @ head1 width height subsample
     @ map word_of_nat (tl std_dc_luminance_nrcodes)
     @ map word_of_nat std_dc_luminance_values
     @ [0x10]
     @ map word_of_nat (tl std_ac_luminance_nrcodes)
     @ map word_of_nat std_ac_luminance_values
     @ [0x01]
     @ map word_of_nat (tl std_dc_chrominance_nrcodes)
     @ map word_of_nat std_dc_chrominance_values
     @ [0x11]
     @ map word_of_nat (tl std_ac_chrominance_nrcodes)
     @ map word_of_nat std_ac_chrominance_values
     @ head2"

text \<open>
  The state of the scan: the bit writer and the three predictors \<open>DCY\<close>, \<open>DCU\<close>,
  \<open>DCV\<close> of line 240.
\<close>

record scan =
  writer :: bit_writer
  DCY :: int
  DCU :: int
  DCV :: int

text \<open>The channel class of a data unit chooses its divisors, its tables and its predictor.\<close>

datatype channel = ChY | ChCb | ChCr

definition encode_unit ::
  "quantiser \<Rightarrow> (nat \<Rightarrow> htable) \<Rightarrow> int \<Rightarrow> pixel list \<Rightarrow> scan \<Rightarrow> channel \<times> nat \<Rightarrow> scan" where
  "encode_unit quant stack quality pixels s u =
     (case fst u of
        ChY \<Rightarrow>
          (let (w, dc) = processDU (writer s) (quant (divisors_Y quality) pixels (snd u)) (DCY s)
                           (YDC_HT stack) (YAC_HT stack)
           in s\<lparr>writer := w, DCY := dc\<rparr>)
      | ChCb \<Rightarrow>
          (let (w, dc) = processDU (writer s) (quant (divisors_UV quality) pixels (snd u)) (DCU s)
                           (UDC_HT stack) (UAC_HT stack)
           in s\<lparr>writer := w, DCU := dc\<rparr>)
      | ChCr \<Rightarrow>
          (let (w, dc) = processDU (writer s) (quant (divisors_UV quality) pixels (snd u)) (DCV s)
                           (UDC_HT stack) (UAC_HT stack)
           in s\<lparr>writer := w, DCV := dc\<rparr>))"

text \<open>
  The calls of \<open>processDU\<close> for one MCU, in order: lines 262 to 277 when subsampling
  (four luma units, then the averaged \<open>Cb\<close> and \<open>Cr\<close>), lines 296 to 298 otherwise.
\<close>

definition mcu_units :: "bool \<Rightarrow> (channel \<times> nat) list" where
  "mcu_units subsample =
     (if subsample then [(ChY, 0), (ChY, 1), (ChY, 2), (ChY, 3), (ChCb, 4), (ChCr, 5)]
      else [(ChY, 0), (ChCb, 1), (ChCr, 2)])"

definition encode_mcu ::
  "quantiser \<Rightarrow> (nat \<Rightarrow> htable) \<Rightarrow> int \<Rightarrow> bool \<Rightarrow> pixel list \<Rightarrow> scan \<Rightarrow> scan" where
  "encode_mcu quant stack quality subsample pixels s =
     foldl (encode_unit quant stack quality pixels) s (mcu_units subsample)"

text \<open>The side of an MCU in pixels: the step of the loops of lines 248, 249, 282 and 283.\<close>

definition mcu_size :: "bool \<Rightarrow> int" where
  "mcu_size subsample = (if subsample then 16 else 8)"

text \<open>\<open>for (x = 0; x < width; x += 16)\<close> (or 8), over one row of MCUs.\<close>

function mcu_cols :: "(int \<Rightarrow> int \<Rightarrow> 's \<Rightarrow> 's) \<Rightarrow> bool \<Rightarrow> int \<Rightarrow> int \<Rightarrow> int \<Rightarrow> 's \<Rightarrow> 's" where
  "mcu_cols body subsample width y x s =
     (if x < width then mcu_cols body subsample width y (x + mcu_size subsample) (body x y s)
      else s)"
  by pat_completeness auto
termination
  by (relation "measure (\<lambda>(body, subsample, width, y, x, s). nat (width - x))")
     (auto simp add: mcu_size_def)

text \<open>\<open>for (y = 0; y < height; y += 16)\<close> (or 8).\<close>

function mcu_rows :: "(int \<Rightarrow> int \<Rightarrow> 's \<Rightarrow> 's) \<Rightarrow> bool \<Rightarrow> int \<Rightarrow> int \<Rightarrow> int \<Rightarrow> 's \<Rightarrow> 's" where
  "mcu_rows body subsample width height y s =
     (if y < height
      then mcu_rows body subsample width height (y + mcu_size subsample)
             (mcu_cols body subsample width y 0 s)
      else s)"
  by pat_completeness auto
termination
  by (relation "measure (\<lambda>(body, subsample, width, height, y, s). nat (height - y))")
     (auto simp add: mcu_size_def)

declare mcu_cols.simps [simp del] mcu_rows.simps [simp del]

definition fillBits :: bits where
  "fillBits = (0x7F, 7)"

text \<open>
  The pixel offset of lines 252 to 255 (and 286 to 289) for one row and column of an
  MCU: \<open>p = (clamped_row * width + clamped_col) * comp\<close>, computed in \<open>int\<close>. C
  leaves a signed overflow undefined, so each step of it yields a value only when that
  value is an \<open>int\<close>.
\<close>

definition INT_MAX :: int where
  "INT_MAX = 2147483647"

definition INT_MIN :: int where
  "INT_MIN = - 2147483648"

definition c_int :: "int \<Rightarrow> int option" where
  "c_int v = (if INT_MIN \<le> v \<and> v \<le> INT_MAX then Some v else None)"

definition pixel_offset :: "int \<Rightarrow> int \<Rightarrow> int \<Rightarrow> int \<Rightarrow> int \<Rightarrow> int option" where
  "pixel_offset width height comp' row col =
     (let clamped_row = (if row < height then row else height - 1);
          clamped_col = (if col < width then col else width - 1)
      in Option.bind (c_int (clamped_row * width))
           (\<lambda>a. Option.bind (c_int (a + clamped_col)) (\<lambda>b. c_int (b * comp'))))"

text \<open>The offsets of all the pixels one MCU reads, in the order of \<open>pos\<close>.\<close>

definition mcu_offsets :: "int \<Rightarrow> int \<Rightarrow> int \<Rightarrow> bool \<Rightarrow> int \<Rightarrow> int \<Rightarrow> int option list" where
  "mcu_offsets width height comp' subsample x y =
     concat (map (\<lambda>row. map (\<lambda>col. pixel_offset width height comp' row col)
                          [x .. x + mcu_size subsample - 1])
                 [y .. y + mcu_size subsample - 1])"

text \<open>Every offset computed while an image is encoded, MCU after MCU.\<close>

definition image_offsets :: "int \<Rightarrow> int \<Rightarrow> int \<Rightarrow> bool \<Rightarrow> int option list" where
  "image_offsets width height comp' subsample =
     mcu_rows (\<lambda>x y acc. acc @ mcu_offsets width height comp' subsample x y)
       subsample width height 0 []"

text \<open>
  Lines 242 to 245 and 256 (290): \<open>dataG\<close> and \<open>dataB\<close> are \<open>data\<close> moved by
  \<open>ofsG\<close> and \<open>ofsB\<close>, and the three bytes of the pixel at offset \<open>p\<close> are read
  from the caller's array. A read outside the array has no value.
\<close>

definition read_pixel :: "byte list \<Rightarrow> int \<Rightarrow> int \<Rightarrow> pixel option" where
  "read_pixel data comp' p =
     (let ofsG = (if comp' > 2 then 1 else 0);
          ofsB = (if comp' > 2 then 2 else 0)
      in if 0 \<le> p \<and> p + ofsB < int (length data)
         then Some (data ! nat p, data ! nat (p + ofsG), data ! nat (p + ofsB))
         else None)"

text \<open>The pixels one MCU reads, in the order of \<open>pos\<close>.\<close>

definition mcu_pixels :: "byte list \<Rightarrow> int \<Rightarrow> int \<Rightarrow> int \<Rightarrow> bool \<Rightarrow> int \<Rightarrow> int \<Rightarrow> pixel option list" where
  "mcu_pixels data width height comp' subsample x y =
     map (\<lambda>off. Option.bind off (read_pixel data comp'))
       (mcu_offsets width height comp' subsample x y)"

text \<open>
  One pass of the body of the MCU loops (lines 250 to 278, or 284 to 298) has a result
  only if every pixel it reads has a value and the bounds \<open>x + 16\<close> and \<open>y + 16\<close>
  (or 8) of its loops, which are also the next values of the counters \<open>x\<close> and
  \<open>y\<close>, are values of \<open>int\<close>.
\<close>

definition mcu_defined :: "byte list \<Rightarrow> int \<Rightarrow> int \<Rightarrow> int \<Rightarrow> bool \<Rightarrow> int \<Rightarrow> int \<Rightarrow> bool" where
  "mcu_defined data width height comp' subsample x y =
     (None \<notin> set (mcu_pixels data width height comp' subsample x y)
      \<and> c_int (x + mcu_size subsample) \<noteq> None
      \<and> c_int (y + mcu_size subsample) \<noteq> None)"

text \<open>
  The pass itself: the pixels are read, then the data units are encoded. \<open>None\<close> is a
  scan that C leaves undefined.
\<close>

definition mcu_step ::
  "quantiser \<Rightarrow> (nat \<Rightarrow> htable) \<Rightarrow> byte list \<Rightarrow> int \<Rightarrow> int \<Rightarrow> int \<Rightarrow> int \<Rightarrow> bool
     \<Rightarrow> int \<Rightarrow> int \<Rightarrow> scan option \<Rightarrow> scan option" where
  "mcu_step quant stack data width height comp' quality subsample x y s =
     Option.bind s (\<lambda>s.
       if mcu_defined data width height comp' subsample x y
       then Some (encode_mcu quant stack quality subsample
                    (map the (mcu_pixels data width height comp' subsample x y)) s)
       else None)"

text \<open>
  \<open>stbi_write_jpg_to_func\<close>. \<open>data\<close> is \<open>None\<close> for a null pointer and else the
  caller's array. \<open>Rejected\<close> is the return value 0, before anything is written;
  \<open>Encoded\<close> holds the bytes the sink has received when 1 is returned; \<open>Undefined\<close>
  is a run to which C gives no meaning.
\<close>

datatype outcome = Rejected | Undefined | Encoded "byte list"

definition stbi_write_jpg_to_func ::
  "quantiser \<Rightarrow> (nat \<Rightarrow> htable) \<Rightarrow> int \<Rightarrow> int \<Rightarrow> int \<Rightarrow> byte list option \<Rightarrow> int \<Rightarrow> outcome" where
  "stbi_write_jpg_to_func quant stack width height comp' data quality =
     (case data of
        None \<Rightarrow> Rejected
      | Some d \<Rightarrow>
          if width = 0 \<or> height = 0 \<or> comp' > 4 \<or> comp' < 1 then Rejected
          else
            (let subsample = subsample_of quality;
                 s0 = \<lparr>writer = \<lparr>bitBuf = 0, bitCnt = 0, sink = header width height subsample\<rparr>,
                       DCY = 0, DCU = 0, DCV = 0\<rparr>
             in case mcu_rows (mcu_step quant stack d width height comp' quality subsample)
                       subsample width height 0 (Some s0) of
                  None \<Rightarrow> Undefined
                | Some s1 \<Rightarrow> Encoded (sink (writeBits (writer s1) fillBits) @ [0xFF, 0xD9])))"

text \<open>
  The origins of the MCUs of an image in raster order, row after row from the top and
  in each row from the left, in steps of the side of an MCU.
\<close>

definition mcu_count :: "bool \<Rightarrow> int \<Rightarrow> nat" where
  "mcu_count subsample extent = nat ((extent + mcu_size subsample - 1) div mcu_size subsample)"

definition mcu_origins :: "bool \<Rightarrow> int \<Rightarrow> int \<Rightarrow> (int \<times> int) list" where
  "mcu_origins subsample width height =
     concat (map (\<lambda>j. map (\<lambda>i. (mcu_size subsample * int i, mcu_size subsample * int j))
                        [0..<mcu_count subsample width])
                 [0..<mcu_count subsample height])"

text \<open>
  The scan state at the start of the entropy-coded segment (lines 240 and 241, after
  the header has been sent), and the relation between two scan states that the later
  one has sent the bytes of the earlier one followed by stuffed bytes.
\<close>

definition scan_start :: "int \<Rightarrow> int \<Rightarrow> bool \<Rightarrow> scan" where
  "scan_start width height subsample =
     \<lparr>writer = \<lparr>bitBuf = 0, bitCnt = 0, sink = header width height subsample\<rparr>,
      DCY = 0, DCU = 0, DCV = 0\<rparr>"

definition extends :: "bit_writer \<Rightarrow> bit_writer \<Rightarrow> bool" where
  "extends w w' = (\<exists>ys. sink w' = sink w @ ys \<and> stuffed ys)"

text \<open>The scan state after the last MCU, the MCUs taken in raster order.\<close>

definition scan_end ::
  "quantiser \<Rightarrow> (nat \<Rightarrow> htable) \<Rightarrow> byte list \<Rightarrow> int \<Rightarrow> int \<Rightarrow> int \<Rightarrow> int \<Rightarrow> scan" where
  "scan_end quant stack data width height comp' quality =
     foldl (\<lambda>s (x, y). encode_mcu quant stack quality (subsample_of quality)
                          (map the (mcu_pixels data width height comp' (subsample_of quality) x y)) s)
       (scan_start width height (subsample_of quality))
       (mcu_origins (subsample_of quality) width height)"

section \<open>Properties: transport encoding\<close>

text \<open>
  C10. The claim: for every byte sequence \<open>d\<close>, \<open>base64Decode (base64Encode d) = d\<close>,
  also when the length of \<open>d\<close> is not a multiple of 3. The encoder's index only
  moves while it is below the length, so neither \<open>i > len + 1\<close> nor \<open>i > len\<close> ever
  holds and no \<open>=\<close> is written: the one byte \<open>0x4D\<close> is encoded as \<open>TQAA\<close>
  (the standard text is \<open>TQ==\<close>), which decodes to three bytes.
\<close>

theorem base64_single_byte_grows:
  "base64Encode [0x4D] = ''TQAA'' \<and> base64Decode (base64Encode [0x4D]) = [0x4D, 0, 0]"
  by code_simp

section \<open>Properties: quality and quantisation\<close>

lemma round_div100: "round (real_of_int a / 100) = (a + 50) div 100"
proof -
  have "real_of_int a / 100 + 1 / 2 = real_of_int (a + 50) / real_of_int 100" by simp
  then have "\<lfloor>real_of_int a / 100 + 1 / 2\<rfloor> = (a + 50) div 100"
    by (simp only: floor_divide_of_int_eq)
  then show ?thesis by (simp add: round_def)
qed

lemma divisor_round:
  "divisor b scale = max 1 (min 255 (round (real_of_int b * real_of_int scale / 100)))"
proof -
  have "round (real_of_int b * real_of_int scale / 100) = (b * scale + 50) div 100"
    using round_div100 [of "b * scale"] by simp
  then show ?thesis by (simp add: divisor_def Let_def max_def min_def)
qed

lemma divisor_range: "1 \<le> divisor b scale \<and> divisor b scale \<le> 255"
  by (simp add: divisor_def Let_def)

lemma quality_scale_in_range:
  "1 \<le> quality \<Longrightarrow> quality \<le> 100 \<Longrightarrow>
   quality_scale quality = (if quality < 50 then 5000 div quality else 200 - 2 * quality)"
  by (simp add: quality_scale_def quality_clamp_def quality_default_def Let_def)

text \<open>
  C5. The claim: for every quality in 1 .. 100 each divisor is
  \<open>clamp (round (b * scale / 100), 1, 255)\<close> with \<open>scale = 5000 / quality\<close> below 50.
  Line 197 divides in \<open>int\<close>, so the scale is the quotient without its fraction. For
  quality 48 it is 104, where \<open>5000 / 48\<close> is 104.17, and the luma divisor of the base
  value 87 (position 29) is \<open>round 90.48 = 90\<close>, where the formula with the exact
  quotient gives \<open>round 90.625 = 91\<close>.
\<close>

theorem quant_divisor_truncated_scale:
  "YQT ! 29 = 87
   \<and> quality_scale 48 = 104
   \<and> yti 48 29 = 90
   \<and> max 1 (min 255 (round (real_of_int (YQT ! 29) * (5000 / 48) / 100))) = 91
   \<and> yti 48 29 \<noteq> max 1 (min 255 (round (real_of_int (YQT ! 29) * (5000 / 48) / 100)))"
proof -
  have b: "YQT ! 29 = 87" by (simp add: YQT_def)
  have s: "quality_scale 48 = 104"
    by (simp add: quality_scale_def quality_clamp_def quality_default_def)
  have y: "yti 48 29 = 90" by (simp add: yti_def s b divisor_def)
  have "real_of_int 87 * (5000 / 48) / 100 + 1 / 2 = 729 / 8" by simp
  then have "round (real_of_int 87 * (5000 / 48) / 100) = \<lfloor>729 / 8 :: real\<rfloor>"
    by (simp only: round_def)
  also have "\<dots> = 91" by simp
  finally have r: "round (real_of_int 87 * (5000 / 48) / 100) = 91" .
  show ?thesis unfolding b y s r by simp
qed

text \<open>
  C5, amended. For every quality in 1 .. 100 and each of the 64 positions, the luma and
  the chroma divisor is \<open>clamp (round (b * scale / 100), 1, 255)\<close>, where \<open>b\<close> is the
  base value, \<open>round\<close> rounds the real quotient to the nearest integer and \<open>scale\<close> is
  the integer quotient of 5000 by the quality (the fraction dropped) below 50 and
  \<open>200 - 2 * quality\<close> from 50 on; every divisor lies in 1 .. 255.
\<close>

theorem quant_divisors:
  assumes "1 \<le> quality" and "quality \<le> 100" and "i < 64"
  defines "scale \<equiv> (if quality < 50 then 5000 div quality else 200 - 2 * quality)"
  shows "yti quality i = max 1 (min 255 (round (real_of_int (YQT ! i) * real_of_int scale / 100)))
       \<and> uvti quality i = max 1 (min 255 (round (real_of_int (UVQT ! i) * real_of_int scale / 100)))
       \<and> 1 \<le> yti quality i \<and> yti quality i \<le> 255
       \<and> 1 \<le> uvti quality i \<and> uvti quality i \<le> 255
       \<and> (quality < 50 \<longrightarrow> real_of_int scale = real_of_int \<lfloor>5000 / real_of_int quality\<rfloor>)"
proof -
  have "real_of_int (5000 div quality) = real_of_int \<lfloor>5000 / real_of_int quality\<rfloor>"
    using floor_divide_of_int_eq [where ?'a = real, of 5000 quality] by simp
  then show ?thesis
    using assms
    by (simp add: yti_def uvti_def quality_scale_in_range divisor_round divisor_range)
qed

theorem quant_divisors_witness:
  "(1::int) \<le> 48 \<and> (48::int) \<le> 100 \<and> (29::nat) < 64 \<and> (48::int) < 50
   \<and> (5000::int) div 48 = 104
   \<and> yti 48 29 = 90 \<and> uvti 48 29 = 103
   \<and> max 1 (min 255 (round (real_of_int (YQT ! 29) * real_of_int 104 / 100))) = 90
   \<and> max 1 (min 255 (round (real_of_int (UVQT ! 29) * real_of_int 104 / 100))) = 103"
proof -
  have y: "yti 48 29 = 90" and u: "uvti 48 29 = 103"
    by (simp_all add: yti_def uvti_def quality_scale_def quality_clamp_def quality_default_def
        divisor_def YQT_def UVQT_def)
  have d: "(5000::int) div 48 = 104" by simp
  have "yti 48 29 = max 1 (min 255 (round (real_of_int (YQT ! 29) * real_of_int (5000 div 48) / 100)))
      \<and> uvti 48 29 = max 1 (min 255 (round (real_of_int (UVQT ! 29) * real_of_int (5000 div 48) / 100)))"
    using quant_divisors [of 48 29] by simp
  then show ?thesis unfolding d y u by simp
qed

text \<open>
  C9. The claim: every quality outside 1 .. 100, 0 included, is encoded as the nearest
  bound of 1 .. 100. Quality 0 is replaced by 90 before the clamp, so its first luma
  divisor is 3, as for quality 90, where quality 1 gives 255.
\<close>

theorem quality_zero_is_not_clamped:
  "yti 0 0 = 3 \<and> yti 1 0 = 255 \<and> yti 90 0 = 3 \<and> yti 0 0 \<noteq> yti 1 0
   \<and> quality_clamp 0 = 1 \<and> yti (quality_clamp 0) 0 = 255"
  by (simp add: yti_def quality_scale_def quality_clamp_def quality_default_def divisor_def
      YQT_def)

lemma encoder_quality:
  assumes "subsample_of q = subsample_of q'" and "quality_scale q = quality_scale q'"
  shows "stbi_write_jpg_to_func quant stack width height comp' data q =
         stbi_write_jpg_to_func quant stack width height comp' data q'"
proof -
  have y: "divisors_Y q = divisors_Y q'" using assms(2) by (simp add: divisors_Y_def yti_def)
  have uv: "divisors_UV q = divisors_UV q'" using assms(2) by (simp add: divisors_UV_def uvti_def)
  have "encode_unit quant stack q = encode_unit quant stack q'"
    by (intro ext) (simp only: encode_unit_def y uv)
  then have "encode_mcu quant stack q = encode_mcu quant stack q'"
    by (intro ext) (simp only: encode_mcu_def)
  then have "mcu_step quant stack d width height comp' q = mcu_step quant stack d width height comp' q'"
    for d
    by (intro ext) (simp only: mcu_step_def)
  then show ?thesis
    using assms(1) by (simp add: stbi_write_jpg_to_func_def split: option.splits)
qed

lemma divisor_scale_0: "divisor b 0 = 1"
  by (simp add: divisor_def)

lemma quality_below_1:
  "quality < 1 \<Longrightarrow> quality \<noteq> 0 \<Longrightarrow>
   subsample_of quality \<and> subsample_of 1 \<and> quality_scale quality = 5000 \<and> quality_scale 1 = 5000"
  by (simp add: subsample_of_def quality_scale_def quality_clamp_def quality_default_def)

lemma quality_above_100:
  "100 < quality \<Longrightarrow>
   \<not> subsample_of quality \<and> \<not> subsample_of 100 \<and> quality_scale quality = 0 \<and> quality_scale 100 = 0"
  by (simp add: subsample_of_def quality_scale_def quality_clamp_def quality_default_def)

lemma quality_0:
  "subsample_of 0 \<and> subsample_of 90 \<and> quality_scale 0 = 20 \<and> quality_scale 90 = 20"
  by (simp add: subsample_of_def quality_scale_def quality_clamp_def quality_default_def)

text \<open>
  C9, amended. A quality below 1 other than 0 is encoded as quality 1: the mode is
  4:2:0, the scale 5000, and the divisors and the whole output are those of quality 1.
  A quality above 100 is encoded as quality 100: the mode is 4:4:4, the scale 0, every
  divisor 1, and the whole output is that of quality 100. Quality 0 is encoded as quality
  90. No quality makes the encoder reject a valid input.
\<close>

theorem quality_out_of_range:
  "(quality < 1 \<and> quality \<noteq> 0 \<longrightarrow>
       subsample_of quality \<and> subsample_of 1
     \<and> quality_scale quality = 5000 \<and> quality_scale 1 = 5000
     \<and> yti quality i = yti 1 i
     \<and> uvti quality i = uvti 1 i
     \<and> stbi_write_jpg_to_func quant stack width height comp' data quality =
         stbi_write_jpg_to_func quant stack width height comp' data 1)
   \<and> (100 < quality \<longrightarrow>
       \<not> subsample_of quality \<and> \<not> subsample_of 100
     \<and> quality_scale quality = 0 \<and> quality_scale 100 = 0
     \<and> yti quality i = yti 100 i \<and> yti quality i = 1
     \<and> uvti quality i = uvti 100 i \<and> uvti quality i = 1
     \<and> stbi_write_jpg_to_func quant stack width height comp' data quality =
         stbi_write_jpg_to_func quant stack width height comp' data 100)
   \<and> subsample_of 0 = subsample_of 90
   \<and> quality_scale 0 = quality_scale 90
   \<and> yti 0 i = yti 90 i
   \<and> uvti 0 i = uvti 90 i
   \<and> stbi_write_jpg_to_func quant stack width height comp' data 0 =
       stbi_write_jpg_to_func quant stack width height comp' data 90
   \<and> (data \<noteq> None \<and> 1 \<le> width \<and> 1 \<le> height \<and> 1 \<le> comp' \<and> comp' \<le> 4 \<longrightarrow>
        stbi_write_jpg_to_func quant stack width height comp' data quality \<noteq> Rejected)"
proof -
  have lo: "subsample_of quality \<and> subsample_of 1
     \<and> quality_scale quality = 5000 \<and> quality_scale 1 = 5000
     \<and> yti quality i = yti 1 i
     \<and> uvti quality i = uvti 1 i
     \<and> stbi_write_jpg_to_func quant stack width height comp' data quality =
         stbi_write_jpg_to_func quant stack width height comp' data 1"
    if h: "quality < 1 \<and> quality \<noteq> 0"
  proof -
    have a: "subsample_of quality \<and> subsample_of 1
        \<and> quality_scale quality = 5000 \<and> quality_scale 1 = 5000"
      using h by (intro quality_below_1) simp_all
    then have "stbi_write_jpg_to_func quant stack width height comp' data quality =
         stbi_write_jpg_to_func quant stack width height comp' data 1"
      by (intro encoder_quality) simp_all
    then show ?thesis using a by (simp add: yti_def uvti_def)
  qed
  have hi: "\<not> subsample_of quality \<and> \<not> subsample_of 100
     \<and> quality_scale quality = 0 \<and> quality_scale 100 = 0
     \<and> yti quality i = yti 100 i \<and> yti quality i = 1
     \<and> uvti quality i = uvti 100 i \<and> uvti quality i = 1
     \<and> stbi_write_jpg_to_func quant stack width height comp' data quality =
         stbi_write_jpg_to_func quant stack width height comp' data 100"
    if h: "100 < quality"
  proof -
    have a: "\<not> subsample_of quality \<and> \<not> subsample_of 100
        \<and> quality_scale quality = 0 \<and> quality_scale 100 = 0"
      using h by (rule quality_above_100)
    then have "stbi_write_jpg_to_func quant stack width height comp' data quality =
         stbi_write_jpg_to_func quant stack width height comp' data 100"
      by (intro encoder_quality) simp_all
    then show ?thesis using a by (simp add: yti_def uvti_def divisor_scale_0)
  qed
  have z: "subsample_of 0 = subsample_of 90 \<and> quality_scale 0 = quality_scale 90
     \<and> yti 0 i = yti 90 i \<and> uvti 0 i = uvti 90 i
     \<and> stbi_write_jpg_to_func quant stack width height comp' data 0 =
         stbi_write_jpg_to_func quant stack width height comp' data 90"
  proof -
    have "stbi_write_jpg_to_func quant stack width height comp' data 0 =
         stbi_write_jpg_to_func quant stack width height comp' data 90"
      using quality_0 by (intro encoder_quality) simp_all
    then show ?thesis using quality_0 by (simp add: yti_def uvti_def)
  qed
  have c: "stbi_write_jpg_to_func quant stack width height comp' data quality \<noteq> Rejected"
    if "data \<noteq> None \<and> 1 \<le> width \<and> 1 \<le> height \<and> 1 \<le> comp' \<and> comp' \<le> 4"
    using that by (auto simp add: stbi_write_jpg_to_func_def Let_def split: option.splits)
  show ?thesis using lo hi z c by blast
qed

theorem quality_out_of_range_witness:
  "(- 5 :: int) < 1 \<and> (- 5 :: int) \<noteq> 0
   \<and> subsample_of (- 5) \<and> quality_scale (- 5) = 5000
   \<and> yti (- 5) 0 = yti 1 0 \<and> uvti (- 5) 0 = uvti 1 0
   \<and> stbi_write_jpg_to_func (\<lambda>d p k. replicate 64 0) (\<lambda>t i. (0, 0)) 16 16 3
        (Some (replicate 768 0)) (- 5) =
       stbi_write_jpg_to_func (\<lambda>d p k. replicate 64 0) (\<lambda>t i. (0, 0)) 16 16 3
        (Some (replicate 768 0)) 1
   \<and> (100 :: int) < 150
   \<and> \<not> subsample_of 150 \<and> quality_scale 150 = 0
   \<and> yti 150 0 = 1 \<and> yti 100 0 = 1 \<and> uvti 150 0 = 1 \<and> uvti 100 0 = 1
   \<and> stbi_write_jpg_to_func (\<lambda>d p k. replicate 64 0) (\<lambda>t i. (0, 0)) 16 16 3
        (Some (replicate 768 0)) 150 =
       stbi_write_jpg_to_func (\<lambda>d p k. replicate 64 0) (\<lambda>t i. (0, 0)) 16 16 3
        (Some (replicate 768 0)) 100
   \<and> Some (replicate 768 (0 :: byte)) \<noteq> None \<and> (1::int) \<le> 16 \<and> (1::int) \<le> 3 \<and> (3::int) \<le> 4
   \<and> stbi_write_jpg_to_func (\<lambda>d p k. replicate 64 0) (\<lambda>t i. (0, 0)) 16 16 3
        (Some (replicate 768 0)) 150 \<noteq> Rejected"
proof -
  let ?enc = "stbi_write_jpg_to_func (\<lambda>d p k. replicate 64 0) (\<lambda>t i. (0, 0)) 16 16 3
        (Some (replicate 768 0))"
  note lo = quality_out_of_range [of "- 5" 0 "\<lambda>d p k. replicate 64 0" "\<lambda>t i. (0, 0)" 16 16 3
      "Some (replicate 768 0)"]
  note hi = quality_out_of_range [of 150 0 "\<lambda>d p k. replicate 64 0" "\<lambda>t i. (0, 0)" 16 16 3
      "Some (replicate 768 0)"]
  have h1: "(- 5 :: int) < 1 \<and> (- 5 :: int) \<noteq> 0" by simp
  have h2: "(100 :: int) < 150" by simp
  have v: "Some (replicate 768 (0 :: byte)) \<noteq> None \<and> (1::int) \<le> 16 \<and> (1::int) \<le> 16
      \<and> (1::int) \<le> 3 \<and> (3::int) \<le> 4"
    by simp
  have a: "subsample_of (- 5) \<and> quality_scale (- 5) = 5000
      \<and> yti (- 5) 0 = yti 1 0 \<and> uvti (- 5) 0 = uvti 1 0 \<and> ?enc (- 5) = ?enc 1"
    using lo h1 by blast
  have b: "\<not> subsample_of 150 \<and> quality_scale 150 = 0
      \<and> yti 150 0 = yti 100 0 \<and> yti 150 0 = 1 \<and> uvti 150 0 = uvti 100 0 \<and> uvti 150 0 = 1
      \<and> ?enc 150 = ?enc 100"
    using hi h2 by blast
  have c: "?enc 150 \<noteq> Rejected" using hi v by blast
  show ?thesis using h1 h2 v a b c by simp
qed

section \<open>Properties: the bit writer\<close>

declare writeBits_loop.simps [simp del]

lemma stuffed_Cons: "x \<noteq> 255 \<Longrightarrow> stuffed (x # ys) = stuffed ys"
  by (cases ys) auto

lemma stuffed_append: "stuffed xs \<Longrightarrow> stuffed ys \<Longrightarrow> stuffed (xs @ ys)"
  by (induction xs rule: stuffed.induct) (auto simp add: stuffed_Cons split: if_splits)

lemma stuffed_stuff_byte: "stuffed (stuff_byte c)"
  by (simp add: stuff_byte_def)

lemma stuffed_concat: "(\<And>x. x \<in> set xss \<Longrightarrow> stuffed x) \<Longrightarrow> stuffed (concat xss)"
  by (induction xss) (auto intro: stuffed_append)

lemma top_byte_signed: "(ucast (signed_drop_bit 16 (buf :: 32 word) AND 255) :: byte) = top_byte buf 0"
proof -
  have m: "(255 :: 32 word) = mask 8" by (simp add: mask_eq_exp_minus_1)
  show ?thesis
    unfolding top_byte_def m
    by (rule bit_word_eqI) (auto simp add: bit_simps)
qed

lemma top_byte_shift: "top_byte (push_bit 8 buf) k = top_byte buf (Suc k)"
  by (simp add: top_byte_def push_bit_push_bit add.commute)

lemma writeBits_loop_closed:
  "writeBits_loop buf cnt out =
     (push_bit (8 * nat (cnt div 8)) buf, cnt - 8 * int (nat (cnt div 8)),
      out @ concat (map (\<lambda>k. stuff_byte (top_byte buf k)) [0..<nat (cnt div 8)]))"
proof (induction buf cnt out rule: writeBits_loop.induct)
  case (1 buf cnt out)
  show ?case
  proof (cases "cnt \<ge> 8")
    case False
    then have "nat (cnt div 8) = 0" by simp
    with False show ?thesis by (simp add: writeBits_loop.simps [of buf cnt out])
  next
    case True
    define m where "m = nat ((cnt - 8) div 8)"
    have n: "nat (cnt div 8) = Suc m" using True unfolding m_def by simp
    have upt: "[0..<Suc m] = 0 # map Suc [0..<m]"
      by (simp add: upt_conv_Cons map_Suc_upt del: upt_Suc)
    let ?c = "ucast (signed_drop_bit 16 buf AND 255) :: byte"
    have out2: "(if ?c = 255 then (out @ [?c]) @ [0] else out @ [?c]) = out @ stuff_byte ?c"
      by (simp add: stuff_byte_def)
    have ih: "writeBits_loop (push_bit 8 buf) (cnt - 8) (out @ stuff_byte ?c) =
       (push_bit (8 * m) (push_bit 8 buf), cnt - 8 - 8 * int m,
        (out @ stuff_byte ?c) @ concat (map (\<lambda>k. stuff_byte (top_byte (push_bit 8 buf) k)) [0..<m]))"
      using "1.IH" [OF True refl refl refl] unfolding m_def out2 .
    have step: "writeBits_loop buf cnt out = writeBits_loop (push_bit 8 buf) (cnt - 8) (out @ stuff_byte ?c)"
      using True by (subst writeBits_loop.simps) (simp add: Let_def out2)
    show ?thesis
      unfolding step ih n upt
      by (simp add: top_byte_shift top_byte_signed push_bit_push_bit comp_def add.commute del: upt_Suc)
  qed
qed

lemma writeBits_closed:
  "writeBits w bs =
     (let cnt = bitCnt w + uint (snd bs);
          buf = bitBuf w OR push_bit (nat (24 - cnt)) (ucast (fst bs));
          n = nat (cnt div 8)
      in \<lparr>bitBuf = push_bit (8 * n) buf, bitCnt = cnt - 8 * int n,
          sink = sink w @ concat (map (\<lambda>k. stuff_byte (top_byte buf k)) [0..<n])\<rparr>)"
  by (simp add: writeBits_def writeBits_loop_closed Let_def)

lemma writeBits_bitCnt_lt: "bitCnt (writeBits w bs) < 8"
  by (simp add: writeBits_closed Let_def) linarith

lemma writeBits_bitCnt_ge: "0 \<le> bitCnt w \<Longrightarrow> 0 \<le> bitCnt (writeBits w bs)"
  by (simp add: writeBits_closed Let_def) linarith?

lemma writeBits_sink: "\<exists>ys. sink (writeBits w bs) = sink w @ ys \<and> stuffed ys"
  by (auto simp add: writeBits_closed Let_def stuffed_stuff_byte intro!: stuffed_concat)

lemma foldl_writeBits_sink: "\<exists>ys. sink (foldl writeBits w calls) = sink w @ ys \<and> stuffed ys"
proof (induction calls arbitrary: w)
  case Nil
  show ?case by simp
next
  case (Cons bs calls)
  obtain ys where ys: "sink (writeBits w bs) = sink w @ ys" "stuffed ys"
    using writeBits_sink by blast
  obtain zs where zs: "sink (foldl writeBits (writeBits w bs) calls) = sink (writeBits w bs) @ zs" "stuffed zs"
    using Cons.IH by blast
  have "sink (foldl writeBits w (bs # calls)) = sink w @ (ys @ zs)"
    using ys zs by simp
  moreover have "stuffed (ys @ zs)" using ys zs by (simp add: stuffed_append)
  ultimately show ?case by blast
qed

lemma foldl_writeBits_bitCnt: "calls \<noteq> [] \<Longrightarrow> bitCnt (foldl writeBits w calls) < 8"
proof (induction calls arbitrary: w rule: rev_induct)
  case Nil
  then show ?case by simp
next
  case (snoc bs calls)
  show ?case by (simp add: writeBits_bitCnt_lt)
qed

text \<open>
  C3. For every writer state and every code written, the call sends exactly the bytes
  taken from the top of the buffer while 8 or more bits are pending (their number is the
  pending count after the code is added, divided by 8), each 255 with a 0 right after it.
  So the bytes sent by any sequence of calls have a 0 after every 255, and after each
  call fewer than 8 bits are pending.
\<close>

theorem bit_writer_stuffing:
  "(let cnt = bitCnt w + uint (snd bs);
        buf = bitBuf w OR push_bit (nat (24 - cnt)) (ucast (fst bs));
        n = nat (cnt div 8)
    in sink (writeBits w bs) = sink w @ concat (map (\<lambda>k. stuff_byte (top_byte buf k)) [0..<n])
     \<and> bitCnt (writeBits w bs) = cnt - 8 * int n)
   \<and> (\<exists>ys. sink (foldl writeBits w calls) = sink w @ ys \<and> stuffed ys)
   \<and> (calls \<noteq> [] \<longrightarrow> bitCnt (foldl writeBits w calls) < 8)"
  using foldl_writeBits_sink [of w calls] foldl_writeBits_bitCnt [of calls w]
  by (simp add: writeBits_closed Let_def)

theorem bit_writer_stuffing_witness:
  "[(0x1FF, 9), (0x7F, 7)] \<noteq> ([] :: bits list)
   \<and> sink (foldl writeBits \<lparr>bitBuf = 0, bitCnt = 0, sink = []\<rparr> [(0x1FF, 9), (0x7F, 7)]) = [255, 0, 255, 0]
   \<and> stuffed [255, 0, 255, 0]
   \<and> bitCnt (foldl writeBits \<lparr>bitBuf = 0, bitCnt = 0, sink = []\<rparr> [(0x1FF, 9), (0x7F, 7)]) = 0"
  using bit_writer_stuffing [of "\<lparr>bitBuf = 0, bitCnt = 0, sink = []\<rparr>" "(0x1FF, 9)" "[(0x1FF, 9), (0x7F, 7)]"]
  by (simp add: writeBits_closed Let_def stuff_byte_def top_byte_def)

section \<open>Properties: Huffman tables\<close>

declare build_inner.simps [simp del] build_outer.simps [simp del]

lemma build_inner_closed:
  "i \<le> n + 1 \<Longrightarrow> build_inner std_table n j i (h, k, code) =
     (store_codes std_table k (map (\<lambda>m. (code + int m, j)) [0..<n + 1 - i]) h,
      k + (n + 1 - i), code + int (n + 1 - i))"
proof (induction std_table n j i "(h, k, code)" arbitrary: h k code rule: build_inner.induct)
  case (1 std_table n j i h k code)
  show ?case
  proof (cases "i \<le> n")
    case False
    with "1.prems" have "n + 1 - i = 0" by simp
    with False show ?thesis by (simp add: build_inner.simps [of _ _ _ i])
  next
    case True
    then have d: "n + 1 - i = Suc (n + 1 - (i + 1))" by simp
    have upt: "[0..<Suc (n + 1 - (i + 1))] = 0 # map Suc [0..<n + 1 - (i + 1)]"
      by (simp add: upt_conv_Cons map_Suc_upt del: upt_Suc)
    have ih: "build_inner std_table n j (i + 1) (h(std_table ! k := (word_of_int code, word_of_nat j)), k + 1, code + 1) =
      (store_codes std_table (k + 1) (map (\<lambda>m. (code + 1 + int m, j)) [0..<n + 1 - (i + 1)])
         (h(std_table ! k := (word_of_int code, word_of_nat j))),
       k + 1 + (n + 1 - (i + 1)), code + 1 + int (n + 1 - (i + 1)))"
      using True by (intro "1.hyps") simp_all
    have step: "build_inner std_table n j i (h, k, code) =
      build_inner std_table n j (i + 1) (h(std_table ! k := (word_of_int code, word_of_nat j)), k + 1, code + 1)"
      using True by (subst build_inner.simps) simp
    show ?thesis
      unfolding step ih unfolding d upt
      by (simp add: comp_def add.assoc del: upt_Suc)
  qed
qed

lemma store_codes_append:
  "store_codes st k (xs @ ys) h = store_codes st (k + length xs) ys (store_codes st k xs h)"
  by (induction xs arbitrary: k h) auto

lemma build_outer_closed:
  "1 \<le> j \<Longrightarrow> j \<le> 17 \<Longrightarrow> length nrcodes = 17 \<Longrightarrow>
   fst (build_outer nrcodes std_table j (h, k, code)) =
     store_codes std_table k (canonical_codes (drop j nrcodes) j code) h"
proof (induction nrcodes std_table j "(h, k, code)" arbitrary: h k code rule: build_outer.induct)
  case (1 nrcodes std_table j h k code)
  show ?case
  proof (cases "j \<le> 16")
    case False
    with "1.prems" have "drop j nrcodes = []" by simp
    with False show ?thesis by (simp add: build_outer.simps [of _ _ j])
  next
    case True
    let ?n = "nrcodes ! j"
    let ?A = "map (\<lambda>m. (code + int m, j)) [0..<?n]"
    have inner: "build_inner std_table ?n j 1 (h, k, code) =
        (store_codes std_table k ?A h, k + ?n, code + int ?n)"
      using build_inner_closed [of 1 ?n std_table j h k code] by simp
    have dr: "drop j nrcodes = ?n # drop (j + 1) nrcodes"
      using True "1.prems" by (simp add: Cons_nth_drop_Suc)
    have ih: "fst (build_outer nrcodes std_table (j + 1) (store_codes std_table k ?A h, k + ?n, (code + int ?n) * 2)) =
        store_codes std_table (k + ?n) (canonical_codes (drop (j + 1) nrcodes) (j + 1) ((code + int ?n) * 2))
          (store_codes std_table k ?A h)"
      using True "1.prems" by (intro "1.hyps" [OF True inner [symmetric] refl]) simp_all
    have step: "build_outer nrcodes std_table j (h, k, code) =
        build_outer nrcodes std_table (j + 1) (store_codes std_table k ?A h, k + ?n, (code + int ?n) * 2)"
      using True inner by (subst build_outer.simps) simp
    show ?thesis
      unfolding step ih dr
      by (simp add: store_codes_append)
  qed
qed

lemma buildHuffmanTable_closed:
  "length nrcodes = 17 \<Longrightarrow>
   buildHuffmanTable nrcodes std_table h = store_codes std_table 0 (canonical_codes (tl nrcodes) 1 0) h"
  using build_outer_closed [of 1 nrcodes std_table h 0 0]
  by (simp add: buildHuffmanTable_def drop_Suc)

lemma canonical_order_follows: "canonical_order ((c, l) # xs) = follows (c + 1) l xs"
  by (induction xs arbitrary: c l) auto

lemma follows_run:
  "follows code j (map (\<lambda>i. (code + int i, j)) [0..<n] @ ys) = follows (code + int n) j ys"
proof (induction n arbitrary: code)
  case 0
  show ?case by simp
next
  case (Suc n)
  have upt: "[0..<Suc n] = 0 # map Suc [0..<n]"
    by (simp add: upt_conv_Cons map_Suc_upt del: upt_Suc)
  have eq: "code + 1 + int n = code + int (Suc n)" by simp
  have "follows code j (map (\<lambda>i. (code + int i, j)) [0..<Suc n] @ ys) =
        follows (code + 1) j (map (\<lambda>i. (code + 1 + int i, j)) [0..<n] @ ys)"
    unfolding upt by (simp add: comp_def add.assoc del: upt_Suc)
  also have "\<dots> = follows (code + 1 + int n) j ys" by (rule Suc.IH)
  finally show ?case unfolding eq .
qed

lemma follows_next_length: "follows (code * 2) (Suc j) ys \<Longrightarrow> follows code j ys"
proof (cases ys)
  case Nil
  then show ?thesis by simp
next
  case (Cons p ps)
  obtain c l where p: "p = (c, l)" by (cases p)
  assume "follows (code * 2) (Suc j) ys"
  then have f: "follows (code * 2) (Suc j) ((c, l) # ps)" unfolding Cons p .
  have a1: "Suc j \<le> l" using f by simp
  have a2: "c = code * 2 * 2 ^ (l - Suc j)" using f by simp
  have a3: "follows (c + 1) l ps" using f by auto
  have "l - j = Suc (l - Suc j)" using a1 by simp
  then have "(2::int) ^ (l - j) = 2 * 2 ^ (l - Suc j)" by simp
  then have "c = code * 2 ^ (l - j)" using a2 by simp
  moreover have "j \<le> l" using a1 by simp
  ultimately have "follows code j ((c, l) # ps)" using a3 by simp
  then show ?thesis unfolding Cons p .
qed

lemma follows_canonical_codes: "follows code j (canonical_codes ns j code)"
proof (induction ns arbitrary: j code)
  case Nil
  show ?case by simp
next
  case (Cons n ns)
  have "follows (code + int n) j (canonical_codes ns (Suc j) ((code + int n) * 2))"
    by (rule follows_next_length) (rule Cons.IH)
  then show ?case by (simp add: follows_run del: upt_Suc)
qed

lemma canonical_order_canonical_codes: "canonical_order (canonical_codes ns j code)"
proof (cases "canonical_codes ns j code")
  case Nil
  then show ?thesis by simp
next
  case (Cons p ps)
  obtain c l where p: "p = (c, l)" by (cases p)
  have "follows code j ((c, l) # ps)" using follows_canonical_codes [of code j ns] unfolding Cons p .
  then have "follows (c + 1) l ps" by auto
  then have "canonical_order ((c, l) # ps)" by (simp only: canonical_order_follows)
  then show ?thesis unfolding Cons p .
qed

lemma canonical_order_sorted: "canonical_order cc \<Longrightarrow> sorted (map snd cc)"
proof (induction cc rule: canonical_order.induct)
  case (3 c l c' l' xs)
  have co: "canonical_order ((c', l') # xs)" and le: "l \<le> l'" using "3.prems" by auto
  have s: "sorted (map snd ((c', l') # xs))" using "3.IH" co by blast
  have "\<forall>y \<in> set (map snd ((c', l') # xs)). l \<le> y"
    using s le by (auto simp add: order_trans)
  then show ?case using s by simp
qed simp_all

lemma canonical_order_consecutive:
  "canonical_order cc \<Longrightarrow> Suc k < length cc \<Longrightarrow> snd (cc ! k) = snd (cc ! Suc k) \<Longrightarrow>
   fst (cc ! Suc k) = fst (cc ! k) + 1"
proof (induction cc arbitrary: k rule: canonical_order.induct)
  case (3 c l c' l' xs)
  have co: "canonical_order ((c', l') # xs)" and le: "l \<le> l'" and c': "c' = (c + 1) * 2 ^ (l' - l)"
    using "3.prems"(1) by auto
  show ?case
  proof (cases k)
    case 0
    have "l = l'" using "3.prems"(3) 0 by simp
    then show ?thesis using 0 c' by simp
  next
    case (Suc k')
    have "fst (((c', l') # xs) ! Suc k') = fst (((c', l') # xs) ! k') + 1"
      using "3.prems"(2,3) Suc by (intro "3.IH" co) simp_all
    then show ?thesis using Suc by simp
  qed
qed simp_all

lemma store_codes_other:
  "(\<And>m. m < length cs \<Longrightarrow> st ! (k + m) \<noteq> s) \<Longrightarrow> store_codes st k cs h s = h s"
proof (induction cs arbitrary: k h)
  case Nil
  show ?case by simp
next
  case (Cons p cs)
  obtain c l where p: "p = (c, l)" by (cases p)
  have "st ! k \<noteq> s" using Cons.prems [of 0] by simp
  moreover have "store_codes st (Suc k) cs (h(st ! k := (word_of_int c, word_of_nat l))) s =
        (h(st ! k := (word_of_int c, word_of_nat l))) s"
  proof (rule Cons.IH)
    fix m assume "m < length cs"
    then show "st ! (Suc k + m) \<noteq> s" using Cons.prems [of "Suc m"] by simp
  qed
  ultimately show ?case by (simp add: p)
qed

lemma store_codes_lookup:
  "(\<And>a b. a < length cs \<Longrightarrow> b < length cs \<Longrightarrow> a \<noteq> b \<Longrightarrow> st ! (k + a) \<noteq> st ! (k + b)) \<Longrightarrow>
   m < length cs \<Longrightarrow>
   store_codes st k cs h (st ! (k + m)) = (word_of_int (fst (cs ! m)), word_of_nat (snd (cs ! m)))"
proof (induction cs arbitrary: k h m)
  case Nil
  then show ?case by simp
next
  case (Cons p cs)
  obtain c l where p: "p = (c, l)" by (cases p)
  show ?case
  proof (cases m)
    case 0
    have "store_codes st (Suc k) cs (h(st ! k := (word_of_int c, word_of_nat l))) (st ! k) =
          (h(st ! k := (word_of_int c, word_of_nat l))) (st ! k)"
    proof (rule store_codes_other)
      fix a assume "a < length cs"
      then show "st ! (Suc k + a) \<noteq> st ! k"
        using Cons.prems(1) [of "Suc a" 0] by simp
    qed
    then show ?thesis using 0 p by simp
  next
    case (Suc m')
    have "store_codes st (Suc k) cs (h(st ! k := (word_of_int c, word_of_nat l))) (st ! (Suc k + m')) =
          (word_of_int (fst (cs ! m')), word_of_nat (snd (cs ! m')))"
    proof (rule Cons.IH)
      fix a b assume "a < length cs" "b < length cs" "a \<noteq> b"
      then show "st ! (Suc k + a) \<noteq> st ! (Suc k + b)"
        using Cons.prems(1) [of "Suc a" "Suc b"] by simp
    next
      show "m' < length cs" using Cons.prems(2) Suc by simp
    qed
    then show ?thesis using Suc p by simp
  qed
qed

lemma dc_luminance_codes:
  "canonical_codes (tl std_dc_luminance_nrcodes) 1 0 =
     [(0, 2), (2, 3), (3, 3), (4, 3), (5, 3), (6, 3), (14, 4), (30, 5), (62, 6),
      (126, 7), (254, 8), (510, 9)]"
  by code_simp

lemma dc_chrominance_codes:
  "canonical_codes (tl std_dc_chrominance_nrcodes) 1 0 =
     [(0, 2), (1, 2), (2, 2), (6, 3), (14, 4), (30, 5), (62, 6), (126, 7), (254, 8),
      (510, 9), (1022, 10), (2046, 11)]"
  by code_simp

lemma dc_luminance_ok: "table_ok (std_dc_luminance_nrcodes, std_dc_luminance_values)"
  unfolding table_ok_def Let_def fst_conv snd_conv dc_luminance_codes
  by (simp add: std_dc_luminance_nrcodes_def std_dc_luminance_values_def)

lemma dc_chrominance_ok: "table_ok (std_dc_chrominance_nrcodes, std_dc_chrominance_values)"
  unfolding table_ok_def Let_def fst_conv snd_conv dc_chrominance_codes
  by (simp add: std_dc_chrominance_nrcodes_def std_dc_chrominance_values_def)

lemma ac_luminance_length:
  "length (canonical_codes (tl std_ac_luminance_nrcodes) 1 0) = length std_ac_luminance_values"
  by code_simp

lemma ac_luminance_fit:
  "list_all (\<lambda>(c, l). 0 \<le> c \<and> c < 2 ^ l \<and> l \<le> 16)
     (canonical_codes (tl std_ac_luminance_nrcodes) 1 0)"
  by code_simp

lemma ac_luminance_distinct: "distinct std_ac_luminance_values"
  by (simp add: std_ac_luminance_values_def)

lemma ac_luminance_ok: "table_ok (std_ac_luminance_nrcodes, std_ac_luminance_values)"
  unfolding table_ok_def Let_def fst_conv snd_conv
  using ac_luminance_length ac_luminance_fit ac_luminance_distinct
  by (simp add: std_ac_luminance_nrcodes_def)

lemma ac_chrominance_length:
  "length (canonical_codes (tl std_ac_chrominance_nrcodes) 1 0) = length std_ac_chrominance_values"
  by code_simp

lemma ac_chrominance_fit:
  "list_all (\<lambda>(c, l). 0 \<le> c \<and> c < 2 ^ l \<and> l \<le> 16)
     (canonical_codes (tl std_ac_chrominance_nrcodes) 1 0)"
  by code_simp

lemma ac_chrominance_distinct: "distinct std_ac_chrominance_values"
  by (simp add: std_ac_chrominance_values_def)

lemma ac_chrominance_ok: "table_ok (std_ac_chrominance_nrcodes, std_ac_chrominance_values)"
  unfolding table_ok_def Let_def fst_conv snd_conv
  using ac_chrominance_length ac_chrominance_fit ac_chrominance_distinct
  by (simp add: std_ac_chrominance_nrcodes_def)

lemma std_tables_ok: "list_all table_ok std_tables"
  by (simp add: std_tables_def dc_luminance_ok dc_chrominance_ok ac_luminance_ok ac_chrominance_ok)

lemma canonical_order_increasing:
  "canonical_order cc \<Longrightarrow> Suc k < length cc \<Longrightarrow> 0 \<le> fst (cc ! k) \<Longrightarrow>
   fst (cc ! k) < fst (cc ! Suc k)"
proof (induction cc arbitrary: k rule: canonical_order.induct)
  case (3 c l c' l' xs)
  have co: "canonical_order ((c', l') # xs)" and c': "c' = (c + 1) * 2 ^ (l' - l)"
    using "3.prems"(1) by auto
  show ?case
  proof (cases k)
    case 0
    then have "0 \<le> c" using "3.prems"(3) by simp
    then have "c + 1 \<le> (c + 1) * 2 ^ (l' - l)"
      by (simp add: mult_le_cancel_left1)
    then show ?thesis using 0 c' by simp
  next
    case (Suc k')
    have "fst (((c', l') # xs) ! k') < fst (((c', l') # xs) ! Suc k')"
      using "3.prems"(2,3) Suc by (intro "3.IH" co) simp_all
    then show ?thesis using Suc by simp
  qed
qed simp_all

text \<open>
  C4. The four pairs of standard tables are well formed. For every well-formed pair of a
  17-entry table of counts and a value-order table, the table built is the canonical
  code stored in value order: walking the lengths 1 to 16, the symbols of one length
  receive consecutive values of the running counter and that length, and the counter
  is doubled after each length. Every value receives its code unchanged by the store (it
  fits its length, at most 16 bits). Along the value order the lengths do not decrease,
  the codes increase, and within one length each code is the successor of the one before.
\<close>

theorem huffman_tables_canonical:
  fixes nrcodes std_table :: "nat list" and htable :: htable
  defines "cc \<equiv> canonical_codes (tl nrcodes) 1 0"
  shows "list_all table_ok std_tables
       \<and> (table_ok (nrcodes, std_table) \<longrightarrow>
            buildHuffmanTable nrcodes std_table htable = store_codes std_table 0 cc htable
          \<and> length cc = length std_table
          \<and> (\<forall>k < length std_table.
                buildHuffmanTable nrcodes std_table htable (std_table ! k) =
                  (word_of_int (fst (cc ! k)), word_of_nat (snd (cc ! k)))
              \<and> 0 \<le> fst (cc ! k) \<and> fst (cc ! k) < 2 ^ snd (cc ! k) \<and> snd (cc ! k) \<le> 16)
          \<and> canonical_order cc
          \<and> sorted (map snd cc)
          \<and> (\<forall>k. Suc k < length cc \<longrightarrow>
                fst (cc ! k) < fst (cc ! Suc k)
              \<and> (snd (cc ! k) = snd (cc ! Suc k) \<longrightarrow> fst (cc ! Suc k) = fst (cc ! k) + 1)))"
proof (intro conjI impI)
  show "list_all table_ok std_tables" by (rule std_tables_ok)
next
  assume ok: "table_ok (nrcodes, std_table)"
  then have len: "length nrcodes = 17" and lcc: "length cc = length std_table"
    and dist: "distinct std_table"
    and fit: "list_all (\<lambda>(c, l). 0 \<le> c \<and> c < 2 ^ l \<and> l \<le> 16) cc"
    by (simp_all add: table_ok_def cc_def Let_def)
  show built: "buildHuffmanTable nrcodes std_table htable = store_codes std_table 0 cc htable"
    unfolding cc_def by (rule buildHuffmanTable_closed [OF len])
  show "length cc = length std_table" by (rule lcc)
  show co: "canonical_order cc" unfolding cc_def by (rule canonical_order_canonical_codes)
  show "sorted (map snd cc)" by (rule canonical_order_sorted [OF co])
  have fitk: "0 \<le> fst (cc ! k) \<and> fst (cc ! k) < 2 ^ snd (cc ! k) \<and> snd (cc ! k) \<le> 16"
    if "k < length cc" for k
  proof -
    have "cc ! k \<in> set cc" using that by simp
    then have "(\<lambda>(c, l). 0 \<le> c \<and> c < 2 ^ l \<and> l \<le> 16) (cc ! k)"
      using fit by (simp add: list_all_iff)
    then show ?thesis by (simp add: case_prod_beta)
  qed
  show "\<forall>k < length std_table.
          buildHuffmanTable nrcodes std_table htable (std_table ! k) =
            (word_of_int (fst (cc ! k)), word_of_nat (snd (cc ! k)))
        \<and> 0 \<le> fst (cc ! k) \<and> fst (cc ! k) < 2 ^ snd (cc ! k) \<and> snd (cc ! k) \<le> 16"
  proof (intro allI impI)
    fix k assume k: "k < length std_table"
    have "store_codes std_table 0 cc htable (std_table ! (0 + k)) =
          (word_of_int (fst (cc ! k)), word_of_nat (snd (cc ! k)))"
    proof (rule store_codes_lookup)
      fix a b assume "a < length cc" "b < length cc" "a \<noteq> b"
      then show "std_table ! (0 + a) \<noteq> std_table ! (0 + b)"
        using dist lcc by (simp add: nth_eq_iff_index_eq)
    next
      show "k < length cc" using k lcc by simp
    qed
    then show "buildHuffmanTable nrcodes std_table htable (std_table ! k) =
            (word_of_int (fst (cc ! k)), word_of_nat (snd (cc ! k)))
        \<and> 0 \<le> fst (cc ! k) \<and> fst (cc ! k) < 2 ^ snd (cc ! k) \<and> snd (cc ! k) \<le> 16"
      using fitk [of k] k lcc built by simp
  qed
  show "\<forall>k. Suc k < length cc \<longrightarrow>
                fst (cc ! k) < fst (cc ! Suc k)
              \<and> (snd (cc ! k) = snd (cc ! Suc k) \<longrightarrow> fst (cc ! Suc k) = fst (cc ! k) + 1)"
  proof (intro allI impI conjI)
    fix k assume k: "Suc k < length cc"
    then have "0 \<le> fst (cc ! k)" using fitk [of k] by simp
    then show "fst (cc ! k) < fst (cc ! Suc k)"
      by (rule canonical_order_increasing [OF co k])
    assume "snd (cc ! k) = snd (cc ! Suc k)"
    then show "fst (cc ! Suc k) = fst (cc ! k) + 1"
      by (rule canonical_order_consecutive [OF co k])
  qed
qed

theorem huffman_tables_canonical_witness:
  "table_ok (std_ac_luminance_nrcodes, std_ac_luminance_values)
   \<and> length (canonical_codes (tl std_ac_luminance_nrcodes) 1 0) = 162
   \<and> canonical_order (canonical_codes (tl std_ac_luminance_nrcodes) 1 0)
   \<and> buildHuffmanTable std_ac_luminance_nrcodes std_ac_luminance_values (\<lambda>_. (0, 0)) 0 = (10, 4)
   \<and> buildHuffmanTable std_ac_luminance_nrcodes std_ac_luminance_values (\<lambda>_. (0, 0)) 0xF0 = (2041, 11)"
proof -
  have c3: "canonical_codes (tl std_ac_luminance_nrcodes) 1 0 ! 3 = (10, 4)" by code_simp
  have c31: "canonical_codes (tl std_ac_luminance_nrcodes) 1 0 ! 31 = (2041, 11)" by code_simp
  have v3: "std_ac_luminance_values ! 3 = 0" by (simp add: std_ac_luminance_values_def)
  have v31: "std_ac_luminance_values ! 31 = 0xF0" by (simp add: std_ac_luminance_values_def)
  have l: "length std_ac_luminance_values = 162" by (simp add: std_ac_luminance_values_def)
  let ?cc = "canonical_codes (tl std_ac_luminance_nrcodes) 1 0"
  let ?h = "buildHuffmanTable std_ac_luminance_nrcodes std_ac_luminance_values (\<lambda>_. (0, 0))"
  note t = huffman_tables_canonical [of std_ac_luminance_nrcodes std_ac_luminance_values "\<lambda>_. (0, 0)"]
  have ok: "table_ok (std_ac_luminance_nrcodes, std_ac_luminance_values)" by (rule ac_luminance_ok)
  have len: "length ?cc = length std_ac_luminance_values" using t ok by blast
  have co: "canonical_order ?cc" using t ok by blast
  have look: "\<forall>k < length std_ac_luminance_values.
      ?h (std_ac_luminance_values ! k) = (word_of_int (fst (?cc ! k)), word_of_nat (snd (?cc ! k)))"
    using t ok by blast
  have "?h (std_ac_luminance_values ! 3) = (word_of_int (fst (?cc ! 3)), word_of_nat (snd (?cc ! 3)))"
    using look l by simp
  then have h3: "?h 0 = (10, 4)" unfolding c3 v3 by simp
  have "?h (std_ac_luminance_values ! 31) = (word_of_int (fst (?cc ! 31)), word_of_nat (snd (?cc ! 31)))"
    using look l by simp
  then have h31: "?h 0xF0 = (2041, 11)" unfolding c31 v31 by simp
  show ?thesis using ok len l co h3 h31 by simp
qed

section \<open>Properties: the block encoder\<close>

declare calcBits_loop.simps [simp del] end0pos_loop.simps [simp del] ac_loop.simps [simp del] bit_length.simps [simp del]

lemma bit_length_0: "bit_length 0 = 0"
  by (simp add: bit_length.simps [of 0])

lemma bit_length_1: "bit_length (Suc 0) = Suc 0"
  by (simp add: bit_length.simps [of "Suc 0"] bit_length_0)

lemma calcBits_loop_1: "calcBits_loop (Suc 0) n = n"
  by (subst calcBits_loop.simps) (simp add: drop_bit_eq_div)

lemma bit_length_bounds: "0 < n \<Longrightarrow> 2 ^ (bit_length n - 1) \<le> n \<and> n < 2 ^ bit_length n"
proof (induction n rule: bit_length.induct)
  case (1 n)
  show ?case
  proof (cases "n div 2 = 0")
    case True
    with "1.prems" have "n = 1" by (simp add: div_eq_0_iff) 
    then show ?thesis by (simp add: bit_length_1)
  next
    case False
    then have ih: "2 ^ (bit_length (n div 2) - 1) \<le> n div 2 \<and> n div 2 < 2 ^ bit_length (n div 2)"
      using "1.IH" "1.prems" by simp
    have pos: "0 < bit_length (n div 2)" using False by (simp add: bit_length.simps [of "n div 2"])
    have bl: "bit_length n = Suc (bit_length (n div 2))"
      using "1.prems" by (simp add: bit_length.simps [of n])
    have p: "(2::nat) ^ bit_length (n div 2) = 2 * 2 ^ (bit_length (n div 2) - 1)"
      using pos by (cases "bit_length (n div 2)") simp_all
    have d1: "2 * (n div 2) \<le> n" and d2: "n < 2 * (n div 2) + 2" by presburger+
    have "(2::nat) ^ bit_length (n div 2) \<le> n" using ih p d1 by linarith
    moreover have "n < 2 * 2 ^ bit_length (n div 2)" using ih d2 by linarith
    ultimately show ?thesis using bl by simp
  qed
qed

lemma calcBits_loop_bit_length:
  "0 < tmp1 \<Longrightarrow> calcBits_loop tmp1 n = n + bit_length tmp1 - 1"
proof (induction tmp1 n rule: calcBits_loop.induct)
  case (1 tmp1 n)
  show ?case
  proof (cases "drop_bit 1 tmp1 = 0")
    case True
    then have "tmp1 = 1" using "1.prems" by (simp add: drop_bit_eq_div div_eq_0_iff)
    then show ?thesis by (simp add: calcBits_loop_1 bit_length_1)
  next
    case False
    then have pos: "0 < drop_bit 1 tmp1" by simp
    have ih: "calcBits_loop (drop_bit 1 tmp1) (n + 1) = n + 1 + bit_length (drop_bit 1 tmp1) - 1"
      using "1.IH" [OF refl False pos] .
    have bl: "bit_length tmp1 = Suc (bit_length (drop_bit 1 tmp1))"
      using "1.prems" by (simp add: bit_length.simps [of tmp1] drop_bit_eq_div)
    show ?thesis
      using False ih bl by (subst calcBits_loop.simps) (simp add: Let_def)
  qed
qed

lemma size_of_bounds:
  "v \<noteq> 0 \<Longrightarrow> 1 \<le> size_of v \<and> 2 ^ (size_of v - 1) \<le> \<bar>v\<bar> \<and> \<bar>v\<bar> < 2 ^ size_of v"
proof -
  assume v: "v \<noteq> 0"
  then have pos: "0 < nat \<bar>v\<bar>" by simp
  have b: "2 ^ (bit_length (nat \<bar>v\<bar>) - 1) \<le> nat \<bar>v\<bar> \<and> nat \<bar>v\<bar> < 2 ^ bit_length (nat \<bar>v\<bar>)"
    by (rule bit_length_bounds [OF pos])
  have "1 \<le> bit_length (nat \<bar>v\<bar>)" using pos by (simp add: bit_length.simps [of "nat \<bar>v\<bar>"])
  moreover have "(2::int) ^ (bit_length (nat \<bar>v\<bar>) - 1) \<le> \<bar>v\<bar>"
  proof -
    have "int (2 ^ (bit_length (nat \<bar>v\<bar>) - 1)) \<le> int (nat \<bar>v\<bar>)"
      using b by (simp only: of_nat_le_iff)
    then show ?thesis by simp
  qed
  moreover have "\<bar>v\<bar> < (2::int) ^ bit_length (nat \<bar>v\<bar>)"
  proof -
    have "int (nat \<bar>v\<bar>) < int (2 ^ bit_length (nat \<bar>v\<bar>))"
      using b by (simp only: of_nat_less_iff)
    then show ?thesis by simp
  qed
  ultimately show ?thesis by (simp add: size_of_def)
qed

lemma size_of_le: "v \<noteq> 0 \<Longrightarrow> \<bar>v\<bar> < 2 ^ k \<Longrightarrow> size_of v \<le> k"
proof (rule ccontr)
  assume v: "v \<noteq> 0" and lt: "\<bar>v\<bar> < 2 ^ k" and "\<not> size_of v \<le> k"
  then have "k \<le> size_of v - 1" by simp
  then have "(2::int) ^ k \<le> 2 ^ (size_of v - 1)" by (simp add: power_increasing)
  then show False using size_of_bounds [OF v] lt by linarith
qed

lemma calcBits_spec:
  "v \<noteq> 0 \<Longrightarrow> calcBits v = (word_of_int (magnitude v), word_of_nat (size_of v))"
proof -
  assume v: "v \<noteq> 0"
  have n: "calcBits_loop (nat (if v < 0 then - v else v)) 1 = size_of v"
    using v by (simp add: calcBits_loop_bit_length size_of_def abs_if)
  have m: "push_bit (size_of v) 1 - 1 = (mask (size_of v) :: int)"
    by (simp add: mask_eq_exp_minus_1 push_bit_eq_mult)
  show ?thesis
  proof (cases "v < 0")
    case True
    then show ?thesis
      unfolding calcBits_def Let_def n m by (simp add: magnitude_def take_bit_eq_mask)
  next
    case False
    then have "0 \<le> v" "v < 2 ^ size_of v" using size_of_bounds [OF v] by simp_all
    then have "take_bit (size_of v) v = v" by (simp add: take_bit_int_eq_self)
    then show ?thesis
      using False unfolding calcBits_def Let_def n m by (simp add: magnitude_def flip: take_bit_eq_mask)
  qed
qed

lemma magnitude_range: "v \<noteq> 0 \<Longrightarrow> 0 \<le> magnitude v \<and> magnitude v < 2 ^ size_of v"
  using size_of_bounds [of v] by (auto simp add: magnitude_def)

lemma magnitude_negative: "v < 0 \<Longrightarrow> magnitude v = v - 1 + 2 ^ size_of v"
proof -
  assume neg: "v < 0"
  then have b: "\<bar>v\<bar> < 2 ^ size_of v" using size_of_bounds [of v] by simp
  have "take_bit (size_of v) (v - 1) = (v - 1) mod 2 ^ size_of v" by (simp add: take_bit_eq_mod)
  also have "\<dots> = (v - 1 + 2 ^ size_of v) mod 2 ^ size_of v" by simp
  also have "\<dots> = v - 1 + 2 ^ size_of v" using neg b by (intro mod_pos_pos_trivial) simp_all
  finally show ?thesis using neg by (simp add: magnitude_def)
qed

lemma end0pos_loop_spec:
  "end0pos_loop DU n \<le> n
   \<and> (\<forall>k. end0pos_loop DU n < k \<and> k \<le> n \<longrightarrow> DU ! k = 0)
   \<and> (0 < end0pos_loop DU n \<longrightarrow> DU ! end0pos_loop DU n \<noteq> 0)"
proof (induction DU n rule: end0pos_loop.induct)
  case (1 DU n)
  show ?case
  proof (cases "n > 0 \<and> DU ! n = 0")
    case True
    then have eq: "end0pos_loop DU n = end0pos_loop DU (n - 1)"
      by (subst end0pos_loop.simps) simp
    have ih: "end0pos_loop DU (n - 1) \<le> n - 1
       \<and> (\<forall>k. end0pos_loop DU (n - 1) < k \<and> k \<le> n - 1 \<longrightarrow> DU ! k = 0)
       \<and> (0 < end0pos_loop DU (n - 1) \<longrightarrow> DU ! end0pos_loop DU (n - 1) \<noteq> 0)"
      by (rule "1.IH" [OF True])
    have "\<forall>k. end0pos_loop DU (n - 1) < k \<and> k \<le> n \<longrightarrow> DU ! k = 0"
    proof (intro allI impI)
      fix k assume k: "end0pos_loop DU (n - 1) < k \<and> k \<le> n"
      show "DU ! k = 0"
      proof (cases "k = n")
        case True
        then show ?thesis using \<open>n > 0 \<and> DU ! n = 0\<close> by simp
      next
        case False
        then have "k \<le> n - 1" using k by arith
        then show ?thesis using ih k by blast
      qed
    qed
    moreover have "end0pos_loop DU (n - 1) \<le> n" using ih by linarith
    ultimately show ?thesis using ih unfolding eq by blast
  next
    case False
    then have eq: "end0pos_loop DU n = n"
      by (subst end0pos_loop.simps) (simp only: False if_False)
    show ?thesis unfolding eq using False by auto
  qed
qed

lemma skip_zeroes_spec:
  "i \<le> e \<Longrightarrow> DU ! e \<noteq> 0 \<Longrightarrow>
   i \<le> skip_zeroes DU e i \<and> skip_zeroes DU e i \<le> e \<and> DU ! skip_zeroes DU e i \<noteq> 0
   \<and> (\<forall>k. i \<le> k \<and> k < skip_zeroes DU e i \<longrightarrow> DU ! k = 0)"
proof (induction DU e i rule: skip_zeroes.induct)
  case (1 DU e i)
  show ?case
  proof (cases "DU ! i = 0 \<and> i \<le> e")
    case True
    then have eq: "skip_zeroes DU e i = skip_zeroes DU e (i + 1)"
      by (subst skip_zeroes.simps) simp
    have "i \<noteq> e" using True "1.prems" by auto
    then have le: "i + 1 \<le> e" using "1.prems" by simp
    have ih: "i + 1 \<le> skip_zeroes DU e (i + 1) \<and> skip_zeroes DU e (i + 1) \<le> e
       \<and> DU ! skip_zeroes DU e (i + 1) \<noteq> 0
       \<and> (\<forall>k. i + 1 \<le> k \<and> k < skip_zeroes DU e (i + 1) \<longrightarrow> DU ! k = 0)"
      by (rule "1.IH" [OF True le "1.prems"(2)])
    have "\<forall>k. i \<le> k \<and> k < skip_zeroes DU e (i + 1) \<longrightarrow> DU ! k = 0"
    proof (intro allI impI)
      fix k assume k: "i \<le> k \<and> k < skip_zeroes DU e (i + 1)"
      show "DU ! k = 0"
      proof (cases "k = i")
        case True
        then show ?thesis using \<open>DU ! i = 0 \<and> i \<le> e\<close> by simp
      next
        case False
        then have "i + 1 \<le> k" using k by arith
        then show ?thesis using ih k by blast
      qed
    qed
    moreover have "i \<le> skip_zeroes DU e (i + 1)" using ih by linarith
    ultimately show ?thesis using ih unfolding eq by blast
  next
    case False
    then have eq: "skip_zeroes DU e i = i"
      by (subst skip_zeroes.simps) (simp only: False if_False)
    show ?thesis unfolding eq using False "1.prems" by auto
  qed
qed

lemma ac_spec_zeros:
  "(\<And>k. k < d \<Longrightarrow> DU ! (i + k) = 0) \<Longrightarrow> i + d < length DU \<Longrightarrow> DU ! (i + d) \<noteq> 0 \<Longrightarrow>
   ac_spec run (drop i DU) = ac_spec (run + d) (drop (i + d) DU)"
proof (induction d arbitrary: i run)
  case 0
  show ?case by simp
next
  case (Suc d)
  have i: "i < length DU" using Suc.prems(2) by simp
  have dr: "drop i DU = DU ! i # drop (Suc i) DU" using i by (simp add: Cons_nth_drop_Suc)
  have z: "DU ! i = 0" using Suc.prems(1) [of 0] by simp
  have "DU ! (i + Suc d) \<in> set (drop (Suc i) DU)"
  proof -
    have "drop (Suc i) DU ! d = DU ! (i + Suc d)" using Suc.prems(2) by simp
    moreover have "d < length (drop (Suc i) DU)" using Suc.prems(2) by simp
    ultimately show ?thesis by (metis nth_mem)
  qed
  then have nz: "\<not> list_all (\<lambda>x. x = 0) (drop (Suc i) DU)"
    using Suc.prems(3) by (auto simp add: list_all_iff)
  have ih: "ac_spec (run + 1) (drop (Suc i) DU) = ac_spec (run + 1 + d) (drop (Suc i + d) DU)"
  proof (rule Suc.IH)
    fix k assume "k < d"
    then show "DU ! (Suc i + k) = 0" using Suc.prems(1) [of "Suc k"] by simp
  next
    show "Suc i + d < length DU" using Suc.prems(2) by simp
    show "DU ! (Suc i + d) \<noteq> 0" using Suc.prems(3) by simp
  qed
  show ?case unfolding dr using z nz ih by simp
qed

lemma ac_spec_emit:
  "i < length DU \<Longrightarrow> DU ! i \<noteq> 0 \<Longrightarrow>
   ac_spec run (drop i DU) =
     replicate (run div 16) (ACcode 0xF0)
     @ [ACcode (push_bit 4 (run mod 16) OR size_of (DU ! i)),
        Raw (word_of_int (magnitude (DU ! i)), word_of_nat (size_of (DU ! i)))]
     @ ac_spec 0 (drop (Suc i) DU)"
proof -
  assume i: "i < length DU" and nz: "DU ! i \<noteq> 0"
  have dr: "drop i DU = DU ! i # drop (Suc i) DU" using i by (simp add: Cons_nth_drop_Suc)
  show ?thesis unfolding dr using nz by simp
qed

lemma ac_spec_all_zero:
  "vs \<noteq> [] \<Longrightarrow> list_all (\<lambda>x. x = 0) vs \<Longrightarrow> ac_spec run vs = [ACcode 0]"
  by (cases vs) simp_all

lemma and_15_mod: "(n::nat) AND 15 = n mod 16"
proof -
  have m: "(15::nat) = mask 4" by (simp add: mask_eq_exp_minus_1)
  show ?thesis unfolding m by (simp add: take_bit_eq_mod flip: take_bit_eq_mask)
qed

lemma push_bit_4_add_or: "s < 16 \<Longrightarrow> push_bit 4 (a::nat) + s = push_bit 4 a OR s"
proof (rule disjunctive_add_eq_or)
  assume "s < 16"
  then have s: "take_bit 4 s = s" by (simp add: take_bit_nat_eq_self)
  have "push_bit 4 a AND take_bit 4 s = 0"
    by (rule bit_eqI) (auto simp add: bit_simps)
  then show "push_bit 4 a AND s = 0" unfolding s .
qed

lemma ac_loop_refines:
  assumes len: "length DU = 64" and e: "e \<le> 63" and nz: "DU ! e \<noteq> 0"
    and range: "\<And>k. 1 \<le> k \<Longrightarrow> k \<le> 63 \<Longrightarrow> \<bar>DU ! k\<bar> < 2 ^ 15"
    and tail: "\<And>k. e < k \<Longrightarrow> k \<le> 63 \<Longrightarrow> DU ! k = 0"
  shows "1 \<le> i \<Longrightarrow> i \<le> e + 1 \<Longrightarrow>
    ac_loop DU e i @ (if e \<noteq> 63 then [ACcode 0] else []) = ac_spec 0 (drop i DU)"
  using len e nz range tail
proof (induction DU e i rule: ac_loop.induct)
  case (1 DU e i)
  note len = "1.prems"(3) and e = "1.prems"(4) and nz = "1.prems"(5)
  note range = "1.prems"(6) and tail = "1.prems"(7)
  show ?case
  proof (cases "i \<le> e")
    case False
    then have i: "i = e + 1" using "1.prems"(2) by simp
    have loop: "ac_loop DU e i = []" using False by (subst ac_loop.simps) simp
    show ?thesis
    proof (cases "e = 63")
      case True
      then show ?thesis using loop i len by simp
    next
      case ne: False
      have "drop i DU \<noteq> []" using i e ne len by simp
      moreover have "list_all (\<lambda>x. x = 0) (drop i DU)"
        unfolding list_all_length
      proof (intro allI impI)
        fix n assume "n < length (drop i DU)"
        then have "i + n \<le> 63" "e < i + n" using len i by simp_all
        then have "DU ! (i + n) = 0" using tail by simp
        then show "drop i DU ! n = 0" using len \<open>i + n \<le> 63\<close> by simp
      qed
      ultimately have "ac_spec 0 (drop i DU) = [ACcode 0]" by (rule ac_spec_all_zero)
      then show ?thesis using loop ne by simp
    qed
  next
    case True
    define i' where "i' = skip_zeroes DU e i"
    define v where "v = DU ! i'"
    define d where "d = i' - i"
    have sk: "i \<le> i' \<and> i' \<le> e \<and> DU ! i' \<noteq> 0 \<and> (\<forall>k. i \<le> k \<and> k < i' \<longrightarrow> DU ! k = 0)"
      unfolding i'_def by (rule skip_zeroes_spec [OF True nz])
    then have i'1: "i \<le> i'" and i'2: "i' \<le> e" and vnz: "v \<noteq> 0"
      and zs: "\<And>k. i \<le> k \<Longrightarrow> k < i' \<Longrightarrow> DU ! k = 0"
      unfolding v_def by blast+
    have i'd: "i' = i + d" using i'1 by (simp add: d_def)
    have "\<bar>v\<bar> < 2 ^ 15" unfolding v_def using range [of i'] i'1 i'2 e "1.prems"(1) by simp
    then have sz: "size_of v \<le> 15" using vnz by (intro size_of_le)
    have cb: "calcBits v = (word_of_int (magnitude v), word_of_nat (size_of v))"
      by (rule calcBits_spec [OF vnz])
    have un: "unat (word_of_nat (size_of v) :: ushort) = size_of v"
      using sz by (simp add: unat_of_nat take_bit_nat_eq_self)
    have mk: "(if d \<ge> 16 then replicate (drop_bit 4 d) (ACcode 0xF0) else []) = replicate (d div 16) (ACcode 0xF0)"
      by (simp add: drop_bit_eq_div)
    have nz': "(if d \<ge> 16 then d AND 15 else d) = d mod 16"
      by (simp add: and_15_mod)
    have sym: "push_bit 4 (d mod 16) + size_of v = push_bit 4 (d mod 16) OR size_of v"
      using sz by (intro push_bit_4_add_or) simp
    have ih: "ac_loop DU e (i' + 1) @ (if e \<noteq> 63 then [ACcode 0] else []) = ac_spec 0 (drop (i' + 1) DU)"
      using i'2 len e nz range tail
      by (intro "1.IH" [OF True refl i'_def refl refl refl refl]) (simp_all add: d_def)
    have raw: "ac_loop DU e i =
        (if d \<ge> 16 then replicate (drop_bit 4 d) (ACcode 0xF0) else [])
        @ [ACcode (push_bit 4 (if d \<ge> 16 then d AND 15 else d) + unat (snd (calcBits v))), Raw (calcBits v)]
        @ ac_loop DU e (i' + 1)"
      by (subst ac_loop.simps)
         (simp only: True if_True Let_def i'_def [symmetric] d_def [symmetric] v_def [symmetric])
    have loop: "ac_loop DU e i =
        replicate (d div 16) (ACcode 0xF0)
        @ [ACcode (push_bit 4 (d mod 16) OR size_of v), Raw (word_of_int (magnitude v), word_of_nat (size_of v))]
        @ ac_loop DU e (i' + 1)"
      unfolding raw mk nz' cb snd_conv un sym ..
    have "ac_spec 0 (drop i DU) = ac_spec (0 + d) (drop (i + d) DU)"
    proof (rule ac_spec_zeros)
      fix k assume "k < d"
      then show "DU ! (i + k) = 0" using zs [of "i + k"] i'd by simp
    next
      show "i + d < length DU" using i'd i'2 e len by simp
      show "DU ! (i + d) \<noteq> 0" using vnz i'd v_def by simp
    qed
    also have "\<dots> = replicate (d div 16) (ACcode 0xF0)
        @ [ACcode (push_bit 4 (d mod 16) OR size_of v), Raw (word_of_int (magnitude v), word_of_nat (size_of v))]
        @ ac_spec 0 (drop (Suc i') DU)"
      using ac_spec_emit [of i' DU d] vnz i'2 e len unfolding v_def i'd by simp
    finally show ?thesis using loop ih by simp
  qed
qed

lemma size_of_or_nonzero: "v \<noteq> 0 \<Longrightarrow> push_bit 4 r OR size_of v \<noteq> 0"
  using size_of_bounds [of v] by (auto simp add: or_eq_0_iff)

lemma ac_spec_no_eob:
  "vs = [] \<or> last vs \<noteq> 0 \<Longrightarrow> ACcode 0 \<notin> set (ac_spec run vs)"
proof (induction vs arbitrary: run)
  case Nil
  show ?case by simp
next
  case (Cons v vs)
  have l: "last (v # vs) \<noteq> 0" using Cons.prems by simp
  have "last (v # vs) \<in> set (v # vs)" by (rule last_in_set) simp
  then have nall: "\<not> list_all (\<lambda>x. x = 0) (v # vs)"
    using l unfolding list_all_iff by blast
  show ?case
  proof (cases "v = 0")
    case True
    then have "vs \<noteq> []" using l by auto
    then have "last vs \<noteq> 0" using l by simp
    then have "ACcode 0 \<notin> set (ac_spec (run + 1) vs)" by (intro Cons.IH) simp
    then show ?thesis using True nall by simp
  next
    case False
    have "vs = [] \<or> last vs \<noteq> 0" using l by auto
    then have "ACcode 0 \<notin> set (ac_spec 0 vs)" by (rule Cons.IH)
    then show ?thesis using False nall size_of_or_nonzero [OF False] by simp
  qed
qed

lemma ac_spec_one_eob:
  "vs \<noteq> [] \<Longrightarrow> last vs = 0 \<Longrightarrow>
   \<exists>pre. ac_spec run vs = pre @ [ACcode 0] \<and> ACcode 0 \<notin> set pre"
proof (induction vs arbitrary: run)
  case Nil
  then show ?case by simp
next
  case (Cons v vs)
  show ?case
  proof (cases "list_all (\<lambda>x. x = 0) (v # vs)")
    case True
    then have "ac_spec run (v # vs) = [] @ [ACcode 0]" by simp
    moreover have "ACcode 0 \<notin> set []" by simp
    ultimately show ?thesis by blast
  next
    case nall: False
    have vs: "vs \<noteq> []" using nall Cons.prems by (cases vs) auto
    then have l: "last vs = 0" using Cons.prems by simp
    show ?thesis
    proof (cases "v = 0")
      case True
      obtain pre where "ac_spec (run + 1) vs = pre @ [ACcode 0]" "ACcode 0 \<notin> set pre"
        using Cons.IH [OF vs l] by blast
      then show ?thesis using True nall by auto
    next
      case False
      obtain pre where p: "ac_spec 0 vs = pre @ [ACcode 0]" "ACcode 0 \<notin> set pre"
        using Cons.IH [OF vs l] by blast
      let ?pre = "replicate (run div 16) (ACcode 0xF0)
           @ [ACcode (push_bit 4 (run mod 16) OR size_of v),
              Raw (word_of_int (magnitude v), word_of_nat (size_of v))] @ pre"
      have "ac_spec run (v # vs) = ?pre @ [ACcode 0]" using False nall p by simp
      moreover have "ACcode 0 \<notin> set ?pre" using p size_of_or_nonzero [OF False] by simp
      ultimately show ?thesis by blast
    qed
  qed
qed

lemma ac_items_refines:
  assumes len: "length DU = 64" and range: "list_all (\<lambda>v. \<bar>v\<bar> < 2 ^ 15) (tl DU)"
  shows "ac_items DU = ac_spec 0 (tl DU)"
proof -
  define e where "e = end0pos_loop DU 63"
  have es: "e \<le> 63 \<and> (\<forall>k. e < k \<and> k \<le> 63 \<longrightarrow> DU ! k = 0) \<and> (0 < e \<longrightarrow> DU ! e \<noteq> 0)"
    unfolding e_def by (rule end0pos_loop_spec)
  have rg: "\<bar>DU ! k\<bar> < 2 ^ 15" if "1 \<le> k" "k \<le> 63" for k
  proof -
    have "tl DU ! (k - 1) \<in> set (tl DU)" using that len by (intro nth_mem) simp
    moreover have "tl DU ! (k - 1) = DU ! k" using that len by (simp add: nth_tl)
    ultimately show ?thesis using range by (auto simp add: list_all_iff)
  qed
  have tl: "tl DU = drop 1 DU" by (simp add: drop_Suc)
  show ?thesis
  proof (cases "e = 0")
    case True
    have "tl DU \<noteq> []" using len by (cases DU) auto
    moreover have "list_all (\<lambda>x. x = 0) (tl DU)"
      unfolding list_all_length
    proof (intro allI impI)
      fix n assume "n < length (tl DU)"
      then have "Suc n \<le> 63" using len by simp
      then have "DU ! Suc n = 0" using es True by simp
      then show "tl DU ! n = 0" using \<open>n < length (tl DU)\<close> by (simp add: nth_tl)
    qed
    ultimately have "ac_spec 0 (tl DU) = [ACcode 0]" by (rule ac_spec_all_zero)
    then show ?thesis using True by (simp add: ac_items_def e_def [symmetric])
  next
    case False
    have "ac_loop DU e 1 @ (if e \<noteq> 63 then [ACcode 0] else []) = ac_spec 0 (drop 1 DU)"
    proof (rule ac_loop_refines [OF len])
      show "e \<le> 63" using es by simp
      show "DU ! e \<noteq> 0" using es False by simp
      show "\<And>k. 1 \<le> k \<Longrightarrow> k \<le> 63 \<Longrightarrow> \<bar>DU ! k\<bar> < 2 ^ 15" by (rule rg)
      show "\<And>k. e < k \<Longrightarrow> k \<le> 63 \<Longrightarrow> DU ! k = 0" using es by simp
      show "1 \<le> (1::nat)" by simp
      show "1 \<le> e + 1" by simp
    qed
    then show ?thesis using False by (simp add: ac_items_def e_def [symmetric] tl Let_def)
  qed
qed

lemma ac_spec_codes: "map (item_bits HTDC HTAC) (ac_spec run vs) = ac_codes HTAC run vs"
  by (induction run vs rule: ac_spec.induct) simp_all

lemma ac_codes_run:
  "v \<noteq> 0 \<Longrightarrow>
   ac_codes HTAC run (replicate r 0 @ v # rest) =
     replicate ((run + r) div 16) (HTAC 0xF0)
     @ [HTAC (push_bit 4 ((run + r) mod 16) OR size_of v),
        (word_of_int (magnitude v), word_of_nat (size_of v))]
     @ ac_codes HTAC 0 rest"
proof (induction r arbitrary: run)
  case 0
  then show ?case by simp
next
  case (Suc r)
  have "ac_codes HTAC run (replicate (Suc r) 0 @ v # rest) =
      ac_codes HTAC (run + 1) (replicate r 0 @ v # rest)"
    using Suc.prems by (simp add: list_all_iff)
  then show ?case using Suc.IH [OF Suc.prems, of "run + 1"] by simp
qed

text \<open>
  C1. For every block of 64 quantised coefficients whose AC terms are below \<open>2^15\<close> in
  magnitude (so that a size fits the low four bits of a symbol), what \<open>processDU\<close>
  hands to the bit writer after the DC term is the run-length scan of the AC terms with
  the entries of the table \<open>HTAC\<close>: a nonzero coefficient after \<open>r\<close> zeros is written
  as the entry \<open>0xF0\<close> (ZRL) once for each full 16 of the zeros, the entry
  \<open>(r mod 16) << 4 | size\<close> and its \<open>size\<close> magnitude bits; once all that is left is
  zero, the entry \<open>0x00\<close> (EOB) is written and the scan stops. A block whose 63 AC
  terms are zero writes the entry \<open>0x00\<close> and nothing else; a nonzero coefficient at
  position 63 means no EOB at all; a zero there means one EOB, as the last code.
\<close>

theorem ac_run_length_coding:
  assumes "length DU = 64" and "list_all (\<lambda>v. \<bar>v\<bar> < 2 ^ 15) (tl DU)"
  shows "fst (processDU w DU DC HTDC HTAC) =
           foldl writeBits (foldl writeBits w (map (item_bits HTDC HTAC) (dc_items DC DU)))
             (ac_codes HTAC 0 (tl DU))
       \<and> map (item_bits HTDC HTAC) (ac_items DU) = ac_codes HTAC 0 (tl DU)
       \<and> (tl DU = replicate r 0 @ v # rest \<and> v \<noteq> 0 \<longrightarrow>
            ac_codes HTAC 0 (tl DU) =
              replicate (r div 16) (HTAC 0xF0)
              @ [HTAC (push_bit 4 (r mod 16) OR size_of v),
                 (word_of_int (magnitude v), word_of_nat (size_of v))]
              @ ac_codes HTAC 0 rest
          \<and> size_of v \<le> 15
          \<and> push_bit 4 (r mod 16) OR size_of v = 16 * (r mod 16) + size_of v)
       \<and> (list_all (\<lambda>v. v = 0) (tl DU) \<longrightarrow>
            ac_items DU = [ACcode 0]
          \<and> ac_codes HTAC 0 (tl DU) = [HTAC 0]
          \<and> fst (processDU w DU DC HTDC HTAC) =
              writeBits (foldl writeBits w (map (item_bits HTDC HTAC) (dc_items DC DU))) (HTAC 0))
       \<and> (DU ! 63 \<noteq> 0 \<longrightarrow> ACcode 0 \<notin> set (ac_items DU))
       \<and> (DU ! 63 = 0 \<longrightarrow>
            (\<exists>pre. ac_items DU = pre @ [ACcode 0] \<and> ACcode 0 \<notin> set pre
               \<and> ac_codes HTAC 0 (tl DU) = map (item_bits HTDC HTAC) pre @ [HTAC 0]))
       \<and> ac_items DU = ac_spec 0 (tl DU)"
proof -
  let ?dc = "foldl writeBits w (map (item_bits HTDC HTAC) (dc_items DC DU))"
  have r: "ac_items DU = ac_spec 0 (tl DU)" by (rule ac_items_refines [OF assms])
  have c: "map (item_bits HTDC HTAC) (ac_items DU) = ac_codes HTAC 0 (tl DU)"
    unfolding r by (rule ac_spec_codes)
  have "fst (processDU w DU DC HTDC HTAC) =
      foldl writeBits ?dc (map (item_bits HTDC HTAC) (ac_items DU))"
    by (simp add: processDU_def)
  then have p: "fst (processDU w DU DC HTDC HTAC) = foldl writeBits ?dc (ac_codes HTAC 0 (tl DU))"
    unfolding c .
  have ne: "tl DU \<noteq> []" using assms(1) by (cases DU) auto
  have l: "last (tl DU) = DU ! 63" using assms(1) ne by (simp add: last_conv_nth nth_tl)
  have run: "ac_codes HTAC 0 (tl DU) =
              replicate (r div 16) (HTAC 0xF0)
              @ [HTAC (push_bit 4 (r mod 16) OR size_of v),
                 (word_of_int (magnitude v), word_of_nat (size_of v))]
              @ ac_codes HTAC 0 rest
          \<and> size_of v \<le> 15
          \<and> push_bit 4 (r mod 16) OR size_of v = 16 * (r mod 16) + size_of v"
    if h: "tl DU = replicate r 0 @ v # rest \<and> v \<noteq> 0"
  proof -
    have v: "v \<noteq> 0" and t: "tl DU = replicate r 0 @ v # rest" using h by simp_all
    have "v \<in> set (tl DU)" unfolding t by simp
    then have "\<bar>v\<bar> < 2 ^ 15" using assms(2) by (simp add: list_all_iff)
    then have s: "size_of v \<le> 15" using v by (intro size_of_le)
    have "push_bit 4 (r mod 16) + size_of v = push_bit 4 (r mod 16) OR size_of v"
      using s by (intro push_bit_4_add_or) simp
    then have o: "push_bit 4 (r mod 16) OR size_of v = 16 * (r mod 16) + size_of v"
      by (simp add: push_bit_eq_mult)
    show ?thesis unfolding t using ac_codes_run [OF v, of HTAC 0 r rest] s o by simp
  qed
  have zero: "ac_items DU = [ACcode 0] \<and> ac_codes HTAC 0 (tl DU) = [HTAC 0]
      \<and> fst (processDU w DU DC HTDC HTAC) = writeBits ?dc (HTAC 0)"
    if z: "list_all (\<lambda>v. v = 0) (tl DU)"
  proof -
    have a: "ac_items DU = [ACcode 0]" unfolding r using ne z by (rule ac_spec_all_zero)
    have b: "ac_codes HTAC 0 (tl DU) = [HTAC 0]" using c unfolding a by simp
    show ?thesis using a b p by simp
  qed
  have last_nz: "ACcode 0 \<notin> set (ac_items DU)" if "DU ! 63 \<noteq> 0"
    unfolding r using ac_spec_no_eob [of "tl DU" 0] l that by simp
  have last_z: "\<exists>pre. ac_items DU = pre @ [ACcode 0] \<and> ACcode 0 \<notin> set pre
               \<and> ac_codes HTAC 0 (tl DU) = map (item_bits HTDC HTAC) pre @ [HTAC 0]"
    if "DU ! 63 = 0"
  proof -
    have "\<exists>pre. ac_spec 0 (tl DU) = pre @ [ACcode 0] \<and> ACcode 0 \<notin> set pre"
      using ac_spec_one_eob [OF ne, of 0] l that by simp
    then obtain pre where pre: "ac_items DU = pre @ [ACcode 0]" "ACcode 0 \<notin> set pre"
      unfolding r by blast
    have "ac_codes HTAC 0 (tl DU) = map (item_bits HTDC HTAC) pre @ [HTAC 0]"
      using c unfolding pre(1) by simp
    then show ?thesis using pre by blast
  qed
  show ?thesis using p c run zero last_nz last_z r by blast
qed

theorem ac_run_length_coding_witness:
  "length (5 # replicate 63 (0::int)) = 64
   \<and> list_all (\<lambda>v. \<bar>v\<bar> < 2 ^ 15) (tl (5 # replicate 63 (0::int)))
   \<and> list_all (\<lambda>v. v = 0) (tl (5 # replicate 63 (0::int)))
   \<and> (5 # replicate 63 (0::int)) ! 63 = 0
   \<and> ac_codes (\<lambda>s. (word_of_nat s, 8)) 0 (tl (5 # replicate 63 0)) = [(0x00, 8)]
   \<and> length ([7, 3, 0, 0, - 2] @ replicate 20 0 @ [1] @ replicate 37 0 @ [- 300 :: int]) = 64
   \<and> list_all (\<lambda>v. \<bar>v\<bar> < 2 ^ 15) (tl ([7, 3, 0, 0, - 2] @ replicate 20 0 @ [1] @ replicate 37 0 @ [- 300 :: int]))
   \<and> ([7, 3, 0, 0, - 2] @ replicate 20 0 @ [1] @ replicate 37 0 @ [- 300 :: int]) ! 63 \<noteq> 0
   \<and> map (item_bits (\<lambda>s. (0, 0)) (\<lambda>s. (word_of_nat s, 8)))
       (ac_items ([7, 3, 0, 0, - 2] @ replicate 20 0 @ [1] @ replicate 37 0 @ [- 300])) =
       [(0x02, 8), (3, 2), (0x22, 8), (1, 2), (0xF0, 8), (0x41, 8), (1, 1),
        (0xF0, 8), (0xF0, 8), (0x59, 8), (211, 9)]
   \<and> ACcode 0 \<notin> set (ac_items ([7, 3, 0, 0, - 2] @ replicate 20 0 @ [1] @ replicate 37 0 @ [- 300]))
   \<and> length (7 # replicate 20 0 @ 1 # replicate 42 (0::int)) = 64
   \<and> list_all (\<lambda>v. \<bar>v\<bar> < 2 ^ 15) (tl (7 # replicate 20 0 @ 1 # replicate 42 (0::int)))
   \<and> tl (7 # replicate 20 0 @ 1 # replicate 42 (0::int)) = replicate 20 0 @ 1 # replicate 42 0
   \<and> (1 :: int) \<noteq> 0
   \<and> ac_codes (\<lambda>s. (word_of_nat s, 8)) 0 (tl (7 # replicate 20 0 @ 1 # replicate 42 0)) =
       [(0xF0, 8), (0x41, 8), (1, 1), (0x00, 8)]"
proof -
  let ?A = "5 # replicate 63 (0::int)"
  let ?B = "[7, 3, 0, 0, - 2] @ replicate 20 0 @ [1] @ replicate 37 0 @ [- 300 :: int]"
  let ?C = "7 # replicate 20 0 @ 1 # replicate 42 (0::int)"
  let ?w = "\<lparr>bitBuf = 0, bitCnt = 0, sink = []\<rparr>"
  let ?D = "\<lambda>s :: nat. (0, 0) :: bits"
  let ?H = "\<lambda>s :: nat. (word_of_nat s, 8) :: bits"
  have a1: "length ?A = 64" by simp
  have a2: "list_all (\<lambda>v. \<bar>v\<bar> < 2 ^ 15) (tl ?A)" by (simp add: list_all_iff)
  have a3: "list_all (\<lambda>v. v = 0) (tl ?A)" by (simp add: list_all_iff)
  have a4: "?A ! 63 = 0" by (simp add: nth_Cons')
  have b1: "length ?B = 64" by simp
  have b2: "list_all (\<lambda>v. \<bar>v\<bar> < 2 ^ 15) (tl ?B)" by (simp add: list_all_iff)
  have b3: "?B ! 63 \<noteq> 0" by (simp add: nth_append nth_Cons')
  have c1: "length ?C = 64" by simp
  have c2: "list_all (\<lambda>v. \<bar>v\<bar> < 2 ^ 15) (tl ?C)" by (simp add: list_all_iff)
  have c3: "tl ?C = replicate 20 0 @ 1 # replicate 42 0" "(1 :: int) \<noteq> 0" by simp_all
  have c6: "push_bit 4 (20 mod 16) OR (1::nat) = 0x41" by code_simp
  have c7: "replicate (20 div 16) (?H 0xF0) = [?H 0xF0]" by simp
  have c4: "size_of 1 = 1" "magnitude 1 = 1" by code_simp+
  have c5: "ac_codes ?H 0 (replicate 42 0) = [(0x00, 8)]" by code_simp
  have b4: "ac_codes ?H 0 (tl ?B) =
       [(0x02, 8), (3, 2), (0x22, 8), (1, 2), (0xF0, 8), (0x41, 8), (1, 1),
        (0xF0, 8), (0xF0, 8), (0x59, 8), (211, 9)]"
    by code_simp
  note ta = ac_run_length_coding [OF a1 a2, of ?w 0 ?D ?H 20 1 "replicate 42 0"]
  note tb = ac_run_length_coding [OF b1 b2, of ?w 0 ?D ?H 20 1 "replicate 42 0"]
  note tc = ac_run_length_coding [OF c1 c2, of ?w 0 ?D ?H 20 1 "replicate 42 0"]
  have ra: "ac_codes ?H 0 (tl ?A) = [?H 0]" using ta a3 by blast
  then have ra': "ac_codes ?H 0 (tl ?A) = [(0x00, 8)]" by simp
  have rb: "map (item_bits ?D ?H) (ac_items ?B) = ac_codes ?H 0 (tl ?B)" using tb by blast
  have rc: "ACcode 0 \<notin> set (ac_items ?B)" using tb b3 by blast
  have "ac_codes ?H 0 (tl ?C) =
      replicate (20 div 16) (?H 0xF0)
      @ [?H (push_bit 4 (20 mod 16) OR size_of 1), (word_of_int (magnitude 1), word_of_nat (size_of 1))]
      @ ac_codes ?H 0 (replicate 42 0)"
    using tc c3 by blast
  then have rd: "ac_codes ?H 0 (tl ?C) = [(0xF0, 8), (0x41, 8), (1, 1), (0x00, 8)]"
    unfolding c4 c5 c6 c7 by simp
  show ?thesis
    using a1 a2 a3 a4 ra' b1 b2 b3 rb [unfolded b4] rc c1 c2 c3 rd by (intro conjI)
qed

text \<open>
  C2. For every block and predictor whose difference \<open>diff = DU[0] - DC\<close> is below
  \<open>2^16\<close> in magnitude, \<open>processDU\<close> returns \<open>DU[0]\<close>, the new predictor. A
  difference 0 writes the DC code of category 0 alone. Any other writes the DC code of
  \<open>size\<close>, the number of bits of \<open>|diff|\<close>, and then \<open>size\<close> magnitude bits
  unchanged: \<open>diff\<close> itself, or \<open>diff - 1\<close> masked to \<open>size\<close> bits when negative.
\<close>

theorem dc_differential_coding:
  fixes DU :: "int list" and DC :: int
  defines "diff \<equiv> DU ! 0 - DC"
  assumes range: "\<bar>DU ! 0 - DC\<bar> < 2 ^ 16"
  shows "snd (processDU w DU DC HTDC HTAC) = DU ! 0
       \<and> fst (processDU w DU DC HTDC HTAC) =
           foldl writeBits (foldl writeBits w (map (item_bits HTDC HTAC) (dc_items DC DU)))
             (map (item_bits HTDC HTAC) (ac_items DU))
       \<and> (diff = 0 \<longrightarrow>
             dc_items DC DU = [DCcode 0]
           \<and> foldl writeBits w (map (item_bits HTDC HTAC) (dc_items DC DU)) = writeBits w (HTDC 0))
       \<and> (diff \<noteq> 0 \<longrightarrow>
             dc_items DC DU =
               [DCcode (size_of diff), Raw (word_of_int (magnitude diff), word_of_nat (size_of diff))]
           \<and> foldl writeBits w (map (item_bits HTDC HTAC) (dc_items DC DU)) =
               writeBits (writeBits w (HTDC (size_of diff)))
                 (word_of_int (magnitude diff), word_of_nat (size_of diff))
           \<and> 1 \<le> size_of diff \<and> size_of diff \<le> 16
           \<and> 2 ^ (size_of diff - 1) \<le> \<bar>diff\<bar> \<and> \<bar>diff\<bar> < 2 ^ size_of diff
           \<and> magnitude diff = (if diff < 0 then take_bit (size_of diff) (diff - 1) else diff)
           \<and> (diff < 0 \<longrightarrow> magnitude diff = diff - 1 + 2 ^ size_of diff)
           \<and> uint (word_of_int (magnitude diff) :: ushort) = magnitude diff
           \<and> unat (word_of_nat (size_of diff) :: ushort) = size_of diff)"
proof (intro conjI impI)
  show "snd (processDU w DU DC HTDC HTAC) = DU ! 0" by (simp add: processDU_def)
  show "fst (processDU w DU DC HTDC HTAC) =
           foldl writeBits (foldl writeBits w (map (item_bits HTDC HTAC) (dc_items DC DU)))
             (map (item_bits HTDC HTAC) (ac_items DU))"
    by (simp add: processDU_def)
next
  assume z: "diff = 0"
  then show d0: "dc_items DC DU = [DCcode 0]" by (simp add: dc_items_def diff_def)
  show "foldl writeBits w (map (item_bits HTDC HTAC) (dc_items DC DU)) = writeBits w (HTDC 0)"
    unfolding d0 by simp
next
  assume nz: "diff \<noteq> 0"
  have b: "1 \<le> size_of diff \<and> 2 ^ (size_of diff - 1) \<le> \<bar>diff\<bar> \<and> \<bar>diff\<bar> < 2 ^ size_of diff"
    by (rule size_of_bounds [OF nz])
  show s1: "1 \<le> size_of diff" and "2 ^ (size_of diff - 1) \<le> \<bar>diff\<bar>" and "\<bar>diff\<bar> < 2 ^ size_of diff"
    using b by simp_all
  show s16: "size_of diff \<le> 16" using nz range unfolding diff_def by (intro size_of_le)
  show un: "unat (word_of_nat (size_of diff) :: ushort) = size_of diff"
    using s16 by (simp add: unat_of_nat take_bit_nat_eq_self)
  show d1: "dc_items DC DU =
      [DCcode (size_of diff), Raw (word_of_int (magnitude diff), word_of_nat (size_of diff))]"
    using nz un by (simp add: dc_items_def diff_def [symmetric] calcBits_spec Let_def)
  show "foldl writeBits w (map (item_bits HTDC HTAC) (dc_items DC DU)) =
               writeBits (writeBits w (HTDC (size_of diff)))
                 (word_of_int (magnitude diff), word_of_nat (size_of diff))"
    unfolding d1 by simp
  show "magnitude diff = (if diff < 0 then take_bit (size_of diff) (diff - 1) else diff)"
    by (simp add: magnitude_def)
  have m: "0 \<le> magnitude diff \<and> magnitude diff < 2 ^ size_of diff"
    by (rule magnitude_range [OF nz])
  have "(2::int) ^ size_of diff \<le> 2 ^ 16" using s16 by (intro power_increasing) simp_all
  then have "magnitude diff < 2 ^ 16" using m by linarith
  then show "uint (word_of_int (magnitude diff) :: ushort) = magnitude diff"
    using m by (simp add: uint_word_of_int take_bit_int_eq_self)
next
  assume "diff < 0"
  then show "magnitude diff = diff - 1 + 2 ^ size_of diff" by (rule magnitude_negative)
qed

theorem dc_differential_coding_witness:
  "\<bar>(7 # replicate 63 (0::int)) ! 0 - 10\<bar> < 2 ^ 16
   \<and> (7 # replicate 63 (0::int)) ! 0 - 10 \<noteq> 0
   \<and> (7 # replicate 63 (0::int)) ! 0 - 10 < 0
   \<and> dc_items 10 (7 # replicate 63 0) = [DCcode 2, Raw (0, 2)]
   \<and> size_of (- 3) = 2 \<and> magnitude (- 3) = 0
   \<and> snd (processDU \<lparr>bitBuf = 0, bitCnt = 0, sink = []\<rparr> (7 # replicate 63 0) 10 (\<lambda>_. (0, 0)) (\<lambda>_. (0, 0))) = 7
   \<and> \<bar>(7 # replicate 63 (0::int)) ! 0 - 7\<bar> < 2 ^ 16
   \<and> (7 # replicate 63 (0::int)) ! 0 - 7 = 0
   \<and> dc_items 7 (7 # replicate 63 0) = [DCcode 0]"
proof -
  let ?A = "7 # replicate 63 (0::int)"
  let ?w = "\<lparr>bitBuf = 0, bitCnt = 0, sink = []\<rparr>"
  have r1: "\<bar>?A ! 0 - 10\<bar> < 2 ^ 16" by simp
  have r2: "\<bar>?A ! 0 - 7\<bar> < 2 ^ 16" by simp
  have s: "size_of (- 3) = 2" by code_simp
  have m: "magnitude (- 3) = 0" by code_simp
  note t1 = dc_differential_coding [OF r1, of ?w "\<lambda>_. (0, 0)" "\<lambda>_. (0, 0)"]
  note t2 = dc_differential_coding [OF r2, of ?w "\<lambda>_. (0, 0)" "\<lambda>_. (0, 0)"]
  have "dc_items 10 ?A = [DCcode (size_of (- 3)), Raw (word_of_int (magnitude (- 3)), word_of_nat (size_of (- 3)))]"
    using t1 by simp
  then have d1: "dc_items 10 ?A = [DCcode 2, Raw (0, 2)]" unfolding s m by simp
  have p: "snd (processDU ?w ?A 10 (\<lambda>_. (0, 0)) (\<lambda>_. (0, 0))) = 7" using t1 by simp
  have d2: "dc_items 7 ?A = [DCcode 0]" using t2 by simp
  show ?thesis using d1 d2 p s m by simp
qed

section \<open>Properties: the MCU loops\<close>

lemma mcu_size_pos: "0 < mcu_size subsample"
  by (simp add: mcu_size_def)

lemma mcu_cols_closed:
  "mcu_cols body subsample width y x0 s =
     foldl (\<lambda>s x. body x y s) s
       (map (\<lambda>i. x0 + mcu_size subsample * int i)
            [0..<nat ((width - x0 + mcu_size subsample - 1) div mcu_size subsample)])"
proof (induction body subsample width y x0 s rule: mcu_cols.induct)
  case (1 body subsample width y x0 s)
  let ?n = "mcu_size subsample"
  have n: "0 < ?n" by (rule mcu_size_pos)
  show ?case
  proof (cases "x0 < width")
    case False
    then have "(width - x0 + ?n - 1) div ?n \<le> (?n - 1) div ?n"
      using n by (intro zdiv_mono1) simp_all
    moreover have "(?n - 1) div ?n = 0" using n by (simp add: div_pos_pos_trivial)
    ultimately have "nat ((width - x0 + ?n - 1) div ?n) = 0" by simp
    then show ?thesis using False by (subst mcu_cols.simps) simp
  next
    case True
    define k where "k = nat ((width - x0 - 1) div ?n)"
    have nn: "0 \<le> (width - x0 - 1) div ?n" using True n by (simp add: pos_imp_zdiv_nonneg_iff)
    have "(width - x0 + ?n - 1) div ?n = (width - x0 - 1) div ?n + 1"
      using n div_add_self2 [of ?n "width - x0 - 1"] by (simp add: algebra_simps)
    then have k1: "nat ((width - x0 + ?n - 1) div ?n) = Suc k" using nn by (simp add: k_def)
    have k2: "nat ((width - (x0 + ?n) + ?n - 1) div ?n) = k" by (simp add: k_def)
    have upt: "[0..<Suc k] = 0 # map Suc [0..<k]"
      by (simp add: upt_conv_Cons map_Suc_upt del: upt_Suc)
    have ih: "mcu_cols body subsample width y (x0 + ?n) (body x0 y s) =
        foldl (\<lambda>s x. body x y s) (body x0 y s) (map (\<lambda>i. x0 + ?n + ?n * int i) [0..<k])"
      using "1.IH" [OF True] unfolding k2 .
    have step: "mcu_cols body subsample width y x0 s = mcu_cols body subsample width y (x0 + ?n) (body x0 y s)"
      using True by (subst mcu_cols.simps) simp
    show ?thesis
      unfolding step ih k1 upt
      by (simp add: comp_def algebra_simps del: upt_Suc)
  qed
qed

lemma mcu_rows_as_cols:
  "mcu_rows body subsample width height y s =
     mcu_cols (\<lambda>y u s. mcu_cols body subsample width y 0 s) subsample height 0 y s"
proof (induction body subsample width height y s rule: mcu_rows.induct)
  case (1 body subsample width height y s)
  show ?case
  proof (cases "y < height")
    case True
    show ?thesis
      using True "1.IH" [OF True]
      by (subst mcu_rows.simps, subst mcu_cols.simps) simp
  next
    case False
    then show ?thesis by (subst mcu_rows.simps, subst mcu_cols.simps) simp
  qed
qed

lemma foldl_concat_map:
  "foldl f s (concat (map g js)) = foldl (\<lambda>s j. foldl f s (g j)) s js"
  by (induction js arbitrary: s) simp_all

lemma mcu_rows_origins:
  "mcu_rows body subsample width height 0 s =
     foldl (\<lambda>s (x, y). body x y s) s (mcu_origins subsample width height)"
proof -
  let ?n = "mcu_size subsample"
  have cols: "mcu_cols body subsample width y 0 s =
      foldl (\<lambda>s (x, y). body x y s) s (map (\<lambda>i. (?n * int i, y)) [0..<mcu_count subsample width])"
    for y s
    by (simp add: mcu_cols_closed mcu_count_def foldl_map)
  show ?thesis
    unfolding mcu_rows_as_cols mcu_cols_closed [of _ subsample height] mcu_origins_def
      foldl_concat_map
    by (simp add: cols mcu_count_def foldl_map)
qed

lemma mcu_origins_range:
  assumes "(x, y) \<in> set (mcu_origins subsample width height)"
  shows "0 \<le> x \<and> x < width \<and> 0 \<le> y \<and> y < height"
proof -
  let ?n = "mcu_size subsample"
  have n: "0 < ?n" by (rule mcu_size_pos)
  have r: "0 \<le> ?n * int i \<and> ?n * int i < extent" if i: "i < mcu_count subsample extent"
    for i extent
  proof -
    have "int i < (extent + ?n - 1) div ?n" using i by (simp add: mcu_count_def)
    then have "int i + 1 \<le> (extent + ?n - 1) div ?n" by simp
    then have "?n * (int i + 1) \<le> ?n * ((extent + ?n - 1) div ?n)"
      using n by (intro mult_left_mono) simp_all
    moreover have "?n * ((extent + ?n - 1) div ?n) \<le> extent + ?n - 1"
      using n pos_mod_sign [of ?n "extent + ?n - 1"]
        minus_mod_eq_mult_div [of "extent + ?n - 1" ?n] by linarith
    ultimately have "?n * int i + ?n \<le> extent + ?n - 1" by (simp add: algebra_simps)
    then show ?thesis using n by simp
  qed
  obtain i j where "i < mcu_count subsample width" and "j < mcu_count subsample height"
    and "x = ?n * int i" and "y = ?n * int j"
    using assms by (auto simp add: mcu_origins_def)
  then show ?thesis using r [of i width] r [of j height] by simp
qed

section \<open>Properties: pixel offsets\<close>

lemma foldl_append_concat:
  "foldl (\<lambda>acc p. acc @ f p) acc ps = acc @ concat (map f ps)"
  by (induction ps arbitrary: acc) simp_all

lemma image_offsets_origins:
  "image_offsets width height comp' subsample =
     concat (map (\<lambda>(x, y). mcu_offsets width height comp' subsample x y)
                 (mcu_origins subsample width height))"
proof -
  have "image_offsets width height comp' subsample =
      foldl (\<lambda>acc p. acc @ (case p of (x, y) \<Rightarrow> mcu_offsets width height comp' subsample x y)) []
        (mcu_origins subsample width height)"
    unfolding image_offsets_def mcu_rows_origins
    by (rule arg_cong [where f = "\<lambda>f. foldl f [] (mcu_origins subsample width height)"])
       (simp add: fun_eq_iff split: prod.splits)
  then show ?thesis by (simp add: foldl_append_concat)
qed

lemma mcu_origins_nonneg:
  "(x, y) \<in> set (mcu_origins subsample width height) \<Longrightarrow> 0 \<le> x \<and> 0 \<le> y"
  using mcu_size_pos [of subsample] by (auto simp add: mcu_origins_def)

lemma c_int_in_range: "0 \<le> v \<Longrightarrow> v \<le> INT_MAX \<Longrightarrow> c_int v = Some v"
  by (simp add: c_int_def INT_MIN_def)

lemma pixel_offset_in_range:
  assumes w: "1 \<le> width" and h: "1 \<le> height" and c: "1 \<le> comp'"
    and fit: "height * width * comp' \<le> INT_MAX"
    and row: "0 \<le> row" and col: "0 \<le> col"
  shows "\<exists>p. pixel_offset width height comp' row col = Some p
           \<and> 0 \<le> p \<and> p \<le> (height - 1) * width * comp' + (width - 1) * comp'"
proof -
  define r where "r = (if row < height then row else height - 1)"
  define k where "k = (if col < width then col else width - 1)"
  have r: "0 \<le> r" "r \<le> height - 1" using row h by (simp_all add: r_def)
  have k: "0 \<le> k" "k \<le> width - 1" using col w by (simp_all add: k_def)
  have a0: "0 \<le> r * width" using r w by simp
  have a1: "r * width \<le> (height - 1) * width" using r w by (intro mult_right_mono) simp_all
  have b0: "0 \<le> r * width + k" using a0 k by linarith
  have b1: "r * width + k \<le> (height - 1) * width + (width - 1)" using a1 k by linarith
  have p0: "0 \<le> (r * width + k) * comp'" using b0 c by simp
  have p1: "(r * width + k) * comp' \<le> ((height - 1) * width + (width - 1)) * comp'"
    using b1 c by (intro mult_right_mono) simp_all
  have top: "((height - 1) * width + (width - 1)) * comp' = height * width * comp' - comp'"
    by (simp add: algebra_simps)
  have x0: "0 \<le> (height - 1) * width + (width - 1)" using w h by simp
  have m: "(height - 1) * width + (width - 1) \<le> ((height - 1) * width + (width - 1)) * comp'"
    using mult_left_mono [OF c x0] by simp
  have lim: "((height - 1) * width + (width - 1)) * comp' \<le> INT_MAX" using top fit c by simp
  have ok: "0 \<le> v \<Longrightarrow> v \<le> INT_MAX \<Longrightarrow> c_int v = Some v" for v
    by (simp add: c_int_def INT_MIN_def)
  have l1: "r * width \<le> INT_MAX" using a1 w m lim by linarith
  have l2: "r * width + k \<le> INT_MAX" using b1 m lim by linarith
  have l3: "(r * width + k) * comp' \<le> INT_MAX" using p1 lim by linarith
  have "c_int (r * width) = Some (r * width)" by (rule ok [OF a0 l1])
  moreover have "c_int (r * width + k) = Some (r * width + k)" by (rule ok [OF b0 l2])
  moreover have "c_int ((r * width + k) * comp') = Some ((r * width + k) * comp')"
    by (rule ok [OF p0 l3])
  ultimately have "pixel_offset width height comp' row col = Some ((r * width + k) * comp')"
    by (simp add: pixel_offset_def r_def k_def Let_def)
  moreover have "(r * width + k) * comp' \<le> (height - 1) * width * comp' + (width - 1) * comp'"
    using p1 by (simp add: algebra_simps)
  ultimately show ?thesis using p0 by simp
qed

lemma in_concat_map: "v \<in> set (concat (map f xs)) \<longleftrightarrow> (\<exists>x \<in> set xs. v \<in> set (f x))"
  by auto

lemma in_map: "v \<in> set (map g ys) \<longleftrightarrow> (\<exists>y \<in> set ys. v = g y)"
  by auto

lemma mcu_offsets_iff:
  "off \<in> set (mcu_offsets width height comp' subsample x y) \<longleftrightarrow>
     (\<exists>row \<in> set [y .. y + mcu_size subsample - 1].
        \<exists>col \<in> set [x .. x + mcu_size subsample - 1].
          off = pixel_offset width height comp' row col)"
  unfolding mcu_offsets_def in_concat_map in_map ..

lemma mcu_offsets_mem:
  assumes "y \<le> row" and "row \<le> y + mcu_size subsample - 1"
    and "x \<le> col" and "col \<le> x + mcu_size subsample - 1"
  shows "pixel_offset width height comp' row col \<in> set (mcu_offsets width height comp' subsample x y)"
proof -
  have r: "row \<in> set [y .. y + mcu_size subsample - 1]"
    and c: "col \<in> set [x .. x + mcu_size subsample - 1]"
    using assms by simp_all
  show ?thesis unfolding mcu_offsets_iff using r c by blast
qed

lemma mcu_offsets_dest:
  assumes "off \<in> set (mcu_offsets width height comp' subsample x y)"
  shows "\<exists>row col. off = pixel_offset width height comp' row col \<and> y \<le> row \<and> x \<le> col"
proof -
  obtain row col where "row \<in> set [y .. y + mcu_size subsample - 1]"
    and "col \<in> set [x .. x + mcu_size subsample - 1]"
    and "off = pixel_offset width height comp' row col"
    using assms unfolding mcu_offsets_iff by blast
  then show ?thesis by auto
qed

lemma mcu_origins_mem:
  "i < mcu_count subsample width \<Longrightarrow> j < mcu_count subsample height \<Longrightarrow>
   (mcu_size subsample * int i, mcu_size subsample * int j) \<in> set (mcu_origins subsample width height)"
  by (force simp add: mcu_origins_def)

lemma image_offsets_iff:
  "off \<in> set (image_offsets width height comp' subsample) \<longleftrightarrow>
     (\<exists>p \<in> set (mcu_origins subsample width height).
        off \<in> set (mcu_offsets width height comp' subsample (fst p) (snd p)))"
  unfolding image_offsets_origins in_concat_map by (simp add: case_prod_beta)

lemma pixel_offset_1x1: "0 \<le> row \<Longrightarrow> 0 \<le> col \<Longrightarrow> pixel_offset 1 1 comp' row col = Some 0"
proof -
  assume "0 \<le> row" and "0 \<le> col"
  then have r: "(if row < 1 then row else 1 - 1) = 0" and c: "(if col < 1 then col else 1 - 1) = 0"
    by auto
  have z: "c_int 0 = Some 0" by (simp add: c_int_def INT_MIN_def INT_MAX_def)
  show ?thesis unfolding pixel_offset_def Let_def r c by (simp add: z)
qed

lemma map_constant: "(\<And>x. x \<in> set xs \<Longrightarrow> f x = v) \<Longrightarrow> map f xs = replicate (length xs) v"
  by (induction xs) simp_all

lemma concat_replicate_replicate: "concat (replicate m (replicate n v)) = replicate (m * n) v"
  by (induction m) (simp_all add: replicate_add)

lemma image_offsets_1x1:
  "image_offsets 1 1 comp' subsample = replicate (if subsample then 256 else 64) (Some 0)"
proof -
  let ?n = "mcu_size subsample"
  have c: "mcu_count subsample 1 = 1" by (simp add: mcu_count_def mcu_size_def)
  have o: "mcu_origins subsample 1 1 = [(0, 0)]" by (simp add: mcu_origins_def c)
  have inner: "map (\<lambda>col. pixel_offset 1 1 comp' row col) [0 .. ?n - 1] = replicate (nat ?n) (Some 0)"
    if "0 \<le> row" for row
  proof -
    have "map (\<lambda>col. pixel_offset 1 1 comp' row col) [0 .. ?n - 1] =
        replicate (length [0 .. ?n - 1]) (Some 0)"
    proof (rule map_constant)
      fix col assume "col \<in> set [0 .. ?n - 1]"
      then have "0 \<le> col" by simp
      then show "pixel_offset 1 1 comp' row col = Some 0" using that by (intro pixel_offset_1x1)
    qed
    then show ?thesis by simp
  qed
  have "map (\<lambda>row. map (\<lambda>col. pixel_offset 1 1 comp' row col) [0 .. ?n - 1]) [0 .. ?n - 1] =
      replicate (length [0 .. ?n - 1]) (replicate (nat ?n) (Some 0))"
  proof (rule map_constant)
    fix row assume "row \<in> set [0 .. ?n - 1]"
    then have "0 \<le> row" by simp
    then show "map (\<lambda>col. pixel_offset 1 1 comp' row col) [0 .. ?n - 1] = replicate (nat ?n) (Some 0)"
      by (rule inner)
  qed
  then have "mcu_offsets 1 1 comp' subsample 0 0 = replicate (nat ?n * nat ?n) (Some 0)"
    by (simp add: mcu_offsets_def concat_replicate_replicate)
  then show ?thesis by (simp add: image_offsets_origins o mcu_size_def)
qed

text \<open>
  When the byte count of the image fits an \<open>int\<close>, every offset computed while the
  image is encoded has a value, which the clamping keeps inside the image.
\<close>

lemma image_offsets_defined:
  assumes "1 \<le> width" and "1 \<le> height" and "1 \<le> comp'"
    and "height * width * comp' \<le> INT_MAX"
    and "off \<in> set (image_offsets width height comp' subsample)"
  shows "\<exists>p. off = Some p \<and> 0 \<le> p
           \<and> p \<le> (height - 1) * width * comp' + (width - 1) * comp'
           \<and> p + (if 2 < comp' then 2 else 0) < height * width * comp'"
proof -
  obtain q where q: "q \<in> set (mcu_origins subsample width height)"
    and qm: "off \<in> set (mcu_offsets width height comp' subsample (fst q) (snd q))"
    using assms(5) unfolding image_offsets_iff by blast
  obtain x y where xy': "q = (x, y)" by (cases q)
  have o: "(x, y) \<in> set (mcu_origins subsample width height)" using q xy' by simp
  have m: "off \<in> set (mcu_offsets width height comp' subsample x y)" using qm xy' by simp
  have xy: "0 \<le> x \<and> 0 \<le> y" by (rule mcu_origins_nonneg [OF o])
  obtain row col where off: "off = pixel_offset width height comp' row col"
    and r: "y \<le> row" and c: "x \<le> col"
    using mcu_offsets_dest [OF m] by blast
  have "0 \<le> row" "0 \<le> col" using xy r c by simp_all
  then obtain p where p: "pixel_offset width height comp' row col = Some p" "0 \<le> p"
      "p \<le> (height - 1) * width * comp' + (width - 1) * comp'"
    using pixel_offset_in_range [OF assms(1,2,3,4)] by blast
  have "(height - 1) * width * comp' + (width - 1) * comp' = height * width * comp' - comp'"
    by (simp add: algebra_simps)
  then have "p + (if 2 < comp' then 2 else 0) < height * width * comp'"
    using p(3) assms(3) by (simp split: if_splits)
  then show ?thesis using off p by blast
qed

text \<open>
  An RGB image of 26755 by 26755 pixels: the offset of its last pixel,
  \<open>(26754 * 26755 + 26754) * 3 = 2147490072\<close>, is not an \<open>int\<close>. The MCU at
  \<open>(26752, 26752)\<close>, the last one in either mode, computes it.
\<close>

lemma pixel_offset_last: "pixel_offset 26755 26755 3 26754 26754 = None"
  by (simp add: pixel_offset_def c_int_def INT_MAX_def INT_MIN_def)

lemma last_origin: "(26752, 26752) \<in> set (mcu_origins subsample 26755 26755)"
proof -
  let ?n = "mcu_size subsample"
  define i where "i = (if subsample then 1672 else 3344 :: nat)"
  have c: "i < mcu_count subsample 26755" by (simp add: mcu_count_def mcu_size_def i_def)
  have "(?n * int i, ?n * int i) \<in> set (mcu_origins subsample 26755 26755)"
    using c c by (rule mcu_origins_mem)
  moreover have "?n * int i = 26752" by (simp add: mcu_size_def i_def)
  ultimately show ?thesis by simp
qed

lemma last_mcu_overflow: "None \<in> set (mcu_offsets 26755 26755 3 subsample 26752 26752)"
proof -
  have "pixel_offset 26755 26755 3 26754 26754
      \<in> set (mcu_offsets 26755 26755 3 subsample 26752 26752)"
    by (rule mcu_offsets_mem) (simp_all add: mcu_size_def)
  then show ?thesis unfolding pixel_offset_last .
qed

lemma image_offsets_overflow: "None \<in> set (image_offsets 26755 26755 3 subsample)"
  unfolding image_offsets_iff using last_origin last_mcu_overflow by force

text \<open>
  C8, amended. For every width and height of at least 1 and 1 to 4 channels such that
  \<open>height * width * comp\<close> is at most \<open>INT_MAX\<close> (and width and height at most
  \<open>INT_MAX - 15\<close>, so that no loop counter leaves the range of \<open>int\<close>), every offset
  computed while the image is encoded, in either mode, is a value \<open>p\<close> with
  \<open>0 \<le> p \<le> (height - 1) * width * comp + (width - 1) * comp\<close>, and the last byte
  read at it, \<open>dataB[p]\<close>, lies inside the \<open>height * width * comp\<close> bytes of the
  image. A 1 by 1 image computes the offset 0 for each of the 256 (or 64) samples of
  its one MCU.
\<close>

theorem pixel_offsets_in_bounds:
  assumes "1 \<le> width" and "1 \<le> height" and "1 \<le> comp'" and "comp' \<le> 4"
    and "height * width * comp' \<le> INT_MAX"
    and "width + 15 \<le> INT_MAX" and "height + 15 \<le> INT_MAX"
  shows "(\<forall>off \<in> set (image_offsets width height comp' subsample).
            \<exists>p. off = Some p \<and> 0 \<le> p
              \<and> p \<le> (height - 1) * width * comp' + (width - 1) * comp'
              \<and> p + (if 2 < comp' then 2 else 0) < height * width * comp')
       \<and> image_offsets 1 1 comp' subsample = replicate (if subsample then 256 else 64) (Some 0)"
proof (intro conjI ballI)
  fix off assume "off \<in> set (image_offsets width height comp' subsample)"
  then show "\<exists>p. off = Some p \<and> 0 \<le> p
              \<and> p \<le> (height - 1) * width * comp' + (width - 1) * comp'
              \<and> p + (if 2 < comp' then 2 else 0) < height * width * comp'"
    by (rule image_offsets_defined [OF assms(1,2,3,5)])
next
  show "image_offsets 1 1 comp' subsample = replicate (if subsample then 256 else 64) (Some 0)"
    by (rule image_offsets_1x1)
qed

text \<open>
  C8. The claim: for every width and height of at least 1 and 1 to 4 channels, every
  pixel offset lies between 0 and \<open>(height - 1) * width * comp + (width - 1) * comp\<close>.
  For an RGB image of 26755 by 26755 pixels the offset of the last pixel,
  \<open>(26754 * 26755 + 26754) * 3 = 2147490072\<close>, is above \<open>INT_MAX\<close>: the product
  overflows \<open>int\<close> and there is no such value \<open>p\<close>.
\<close>

theorem pixel_offset_overflow:
  "INT_MAX < (26754 * 26755 + 26754) * 3
   \<and> pixel_offset 26755 26755 3 26754 26754 = None
   \<and> None \<in> set (image_offsets 26755 26755 3 True)"
  using pixel_offset_last image_offsets_overflow [of True] by (simp add: INT_MAX_def)

theorem pixel_offsets_in_bounds_witness:
  "(1::int) \<le> 17 \<and> (1::int) \<le> 9 \<and> (1::int) \<le> 3 \<and> (3::int) \<le> 4
   \<and> 9 * 17 * 3 \<le> INT_MAX \<and> 17 + 15 \<le> INT_MAX \<and> 9 + 15 \<le> INT_MAX
   \<and> pixel_offset 17 9 3 15 23 = Some 456
   \<and> Some 456 \<in> set (image_offsets 17 9 3 True)
   \<and> (456::int) \<le> (9 - 1) * 17 * 3 + (17 - 1) * 3
   \<and> (456::int) + 2 < 9 * 17 * 3
   \<and> image_offsets 1 1 3 True = replicate 256 (Some 0)"
proof -
  have h: "(1::int) \<le> 17" "(1::int) \<le> 9" "(1::int) \<le> 3" "(3::int) \<le> 4"
    "9 * 17 * 3 \<le> INT_MAX" "17 + 15 \<le> INT_MAX" "9 + 15 \<le> INT_MAX"
    by (simp_all add: INT_MAX_def)
  note t = pixel_offsets_in_bounds [OF h, of True]
  have p: "pixel_offset 17 9 3 15 23 = Some 456"
    by (simp add: pixel_offset_def c_int_def INT_MAX_def INT_MIN_def)
  have "(mcu_size True * int 1, mcu_size True * int 0) \<in> set (mcu_origins True 17 9)"
    by (rule mcu_origins_mem) (simp_all add: mcu_count_def mcu_size_def)
  then have o: "(16, 0) \<in> set (mcu_origins True 17 9)" by (simp add: mcu_size_def)
  have "pixel_offset 17 9 3 15 23 \<in> set (mcu_offsets 17 9 3 True 16 0)"
    by (rule mcu_offsets_mem) (simp_all add: mcu_size_def)
  then have "Some 456 \<in> set (mcu_offsets 17 9 3 True 16 0)" unfolding p .
  then have m: "Some 456 \<in> set (image_offsets 17 9 3 True)"
    unfolding image_offsets_iff using o by force
  obtain q where "Some (456::int) = Some q" and "q \<le> (9 - 1) * 17 * 3 + (17 - 1) * 3"
    and "q + (if (2::int) < 3 then 2 else 0) < 9 * 17 * 3"
    using t m by blast
  then have b: "(456::int) \<le> (9 - 1) * 17 * 3 + (17 - 1) * 3" "(456::int) + 2 < 9 * 17 * 3" by simp_all
  have one: "image_offsets 1 1 3 True = replicate 256 (Some 0)" using t by simp
  show ?thesis using h p m b one by blast
qed

section \<open>Properties: the stream assembler\<close>

lemma extends_refl: "extends w w"
  by (auto simp add: extends_def intro: exI [of _ "[]"])

lemma extends_trans: "extends w w' \<Longrightarrow> extends w' w'' \<Longrightarrow> extends w w''"
proof -
  assume "extends w w'" and "extends w' w''"
  then obtain ys zs where ys: "sink w' = sink w @ ys" "stuffed ys"
    and zs: "sink w'' = sink w' @ zs" "stuffed zs"
    unfolding extends_def by blast
  have "sink w'' = sink w @ (ys @ zs)" using ys zs by simp
  moreover have "stuffed (ys @ zs)" using ys zs by (simp add: stuffed_append)
  ultimately show ?thesis unfolding extends_def by blast
qed

lemma extends_writeBits: "extends w (writeBits w bs)"
  unfolding extends_def by (rule writeBits_sink)

lemma extends_foldl_writeBits: "extends w (foldl writeBits w calls)"
  unfolding extends_def by (rule foldl_writeBits_sink)

lemma extends_processDU: "extends w (fst (processDU w DU DC HTDC HTAC))"
  unfolding processDU_def fst_conv by (rule extends_foldl_writeBits)

lemma extends_encode_unit:
  "extends (writer s) (writer (encode_unit quant stack quality pixels s u))"
proof (cases "fst u")
  case ChY
  then show ?thesis
    using extends_processDU [of "writer s" "quant (divisors_Y quality) pixels (snd u)" "DCY s" "YDC_HT stack" "YAC_HT stack"]
    by (simp add: encode_unit_def case_prod_beta)
next
  case ChCb
  then show ?thesis
    using extends_processDU [of "writer s" "quant (divisors_UV quality) pixels (snd u)" "DCU s" "UDC_HT stack" "UAC_HT stack"]
    by (simp add: encode_unit_def case_prod_beta)
next
  case ChCr
  then show ?thesis
    using extends_processDU [of "writer s" "quant (divisors_UV quality) pixels (snd u)" "DCV s" "UDC_HT stack" "UAC_HT stack"]
    by (simp add: encode_unit_def case_prod_beta)
qed

lemma extends_foldl:
  "(\<And>s x. extends (writer s) (writer (f s x))) \<Longrightarrow> extends (writer s) (writer (foldl f s xs))"
proof (induction xs arbitrary: s)
  case Nil
  show ?case by (simp add: extends_refl)
next
  case (Cons x xs)
  have "extends (writer s) (writer (f s x))" by (rule Cons.prems)
  moreover have "extends (writer (f s x)) (writer (foldl f (f s x) xs))"
    by (rule Cons.IH) (rule Cons.prems)
  ultimately show ?case by (simp add: extends_trans)
qed

lemma extends_encode_mcu:
  "extends (writer s) (writer (encode_mcu quant stack quality subsample pixels s))"
  unfolding encode_mcu_def by (rule extends_foldl) (rule extends_encode_unit)

lemma extends_scan:
  "extends (writer s)
     (writer (foldl (\<lambda>s p. encode_mcu quant stack quality subsample (pixels p) s) s origins))"
  by (rule extends_foldl) (rule extends_encode_mcu)

lemma length_header: "length (header width height subsample) = 607"
  by (simp add: header_def head0_def head1_def head2_def
      std_dc_luminance_nrcodes_def std_dc_luminance_values_def
      std_ac_luminance_nrcodes_def std_ac_luminance_values_def
      std_dc_chrominance_nrcodes_def std_dc_chrominance_values_def
      std_ac_chrominance_nrcodes_def std_ac_chrominance_values_def)

lemma header_soi: "take 2 (header width height subsample) = [0xFF, 0xD8]"
  by (simp add: header_def head0_def)

lemma header_sampling:
  "header width height subsample ! 165 = (if subsample then 0x22 else 0x11)"
  by (simp add: header_def head0_def head1_def nth_append)

lemma foldl_mcu_step_None:
  "foldl (\<lambda>s p. mcu_step quant stack d width height comp' quality subsample (fst p) (snd p) s)
     None origins = None"
  by (induction origins) (simp_all add: mcu_step_def)

lemma foldl_mcu_step_defined:
  assumes "\<forall>p \<in> set origins. mcu_defined d width height comp' subsample (fst p) (snd p)"
  shows "foldl (\<lambda>s p. mcu_step quant stack d width height comp' quality subsample (fst p) (snd p) s)
           (Some s) origins =
         Some (foldl (\<lambda>s p. encode_mcu quant stack quality subsample
                               (map the (mcu_pixels d width height comp' subsample (fst p) (snd p))) s)
                 s origins)"
  using assms by (induction origins arbitrary: s) (simp_all add: mcu_step_def)

lemma foldl_mcu_step_undefined:
  assumes "p \<in> set origins"
    and "\<not> mcu_defined d width height comp' subsample (fst p) (snd p)"
  shows "foldl (\<lambda>s p. mcu_step quant stack d width height comp' quality subsample (fst p) (snd p) s)
           s origins = None"
  using assms(1)
proof (induction origins arbitrary: s)
  case Nil
  then show ?case by simp
next
  case (Cons q qs)
  show ?case
  proof (cases "q = p")
    case True
    have "mcu_step quant stack d width height comp' quality subsample (fst p) (snd p) s = None"
      using assms(2) by (cases s) (simp_all add: mcu_step_def)
    then show ?thesis using True by (simp add: foldl_mcu_step_None)
  next
    case False
    then have "p \<in> set qs" using Cons.prems by simp
    then show ?thesis using Cons.IH by simp
  qed
qed

text \<open>
  Every pass over an image is defined when the caller's array holds the
  \<open>height * width * comp\<close> bytes of the image, that count is at most \<open>INT_MAX\<close>, and
  the width and the height are at most \<open>INT_MAX - 15\<close>.
\<close>

lemma image_defined:
  assumes "1 \<le> width" and "1 \<le> height" and "1 \<le> comp'"
    and "height * width * comp' \<le> int (length d)"
    and "height * width * comp' \<le> INT_MAX"
    and "width + 15 \<le> INT_MAX" and "height + 15 \<le> INT_MAX"
    and "q \<in> set (mcu_origins subsample width height)"
  shows "mcu_defined d width height comp' subsample (fst q) (snd q)"
proof -
  obtain x y where q: "q = (x, y)" by (cases q)
  have o: "(x, y) \<in> set (mcu_origins subsample width height)" using assms(8) q by simp
  have xy: "0 \<le> x \<and> x < width \<and> 0 \<le> y \<and> y < height" by (rule mcu_origins_range [OF o])
  have n: "0 < mcu_size subsample \<and> mcu_size subsample \<le> 16" by (simp add: mcu_size_def)
  have "c_int (x + mcu_size subsample) = Some (x + mcu_size subsample)"
    using xy n assms(6) by (intro c_int_in_range) linarith+
  moreover have "c_int (y + mcu_size subsample) = Some (y + mcu_size subsample)"
    using xy n assms(7) by (intro c_int_in_range) linarith+
  moreover have "px \<noteq> None" if px: "px \<in> set (mcu_pixels d width height comp' subsample x y)" for px
  proof -
    obtain off where off: "off \<in> set (mcu_offsets width height comp' subsample x y)"
      and r: "px = Option.bind off (read_pixel d comp')"
      using px by (auto simp add: mcu_pixels_def)
    have "off \<in> set (image_offsets width height comp' subsample)"
      unfolding image_offsets_iff using o off by force
    then obtain p where p: "off = Some p" "0 \<le> p"
        "p + (if 2 < comp' then 2 else 0) < height * width * comp'"
      using image_offsets_defined [OF assms(1,2,3,5)] by blast
    have "p + (if 2 < comp' then 2 else 0) < int (length d)" using p(3) assms(4) by linarith
    then show ?thesis using p(1,2) r by (simp add: read_pixel_def)
  qed
  ultimately show ?thesis using q by (auto simp add: mcu_defined_def)
qed

lemma last_mcu_undefined: "\<not> mcu_defined d 26755 26755 3 subsample 26752 26752"
proof -
  have "Option.bind None (read_pixel d 3)
      \<in> (\<lambda>off. Option.bind off (read_pixel d 3)) ` set (mcu_offsets 26755 26755 3 subsample 26752 26752)"
    using last_mcu_overflow by (rule imageI)
  then have "None \<in> set (mcu_pixels d 26755 26755 3 subsample 26752 26752)"
    by (simp add: mcu_pixels_def)
  then show ?thesis by (simp add: mcu_defined_def)
qed

lemma encoder_output:
  assumes "width \<noteq> 0" and "height \<noteq> 0" and "1 \<le> comp'" and "comp' \<le> 4"
    and "\<forall>p \<in> set (mcu_origins (subsample_of quality) width height).
           mcu_defined d width height comp' (subsample_of quality) (fst p) (snd p)"
  shows "stbi_write_jpg_to_func quant stack width height comp' (Some d) quality =
           Encoded (sink (writeBits (writer (scan_end quant stack d width height comp' quality)) fillBits)
                    @ [0xFF, 0xD9])"
proof -
  have "mcu_rows (mcu_step quant stack d width height comp' quality (subsample_of quality))
          (subsample_of quality) width height 0
          (Some (scan_start width height (subsample_of quality))) =
        Some (scan_end quant stack d width height comp' quality)"
    unfolding mcu_rows_origins scan_end_def case_prod_beta
    by (rule foldl_mcu_step_defined [OF assms(5)])
  then show ?thesis
    using assms(1-4) by (simp add: stbi_write_jpg_to_func_def Let_def scan_start_def)
qed

lemma encoder_undefined:
  assumes "width \<noteq> 0" and "height \<noteq> 0" and "1 \<le> comp'" and "comp' \<le> 4"
    and "p \<in> set (mcu_origins (subsample_of quality) width height)"
    and "\<not> mcu_defined d width height comp' (subsample_of quality) (fst p) (snd p)"
  shows "stbi_write_jpg_to_func quant stack width height comp' (Some d) quality = Undefined"
proof -
  have "mcu_rows (mcu_step quant stack d width height comp' quality (subsample_of quality))
          (subsample_of quality) width height 0
          (Some (scan_start width height (subsample_of quality))) = None"
    unfolding mcu_rows_origins case_prod_beta
    by (rule foldl_mcu_step_undefined [OF assms(5,6)])
  then show ?thesis
    using assms(1-4) by (simp add: stbi_write_jpg_to_func_def Let_def scan_start_def)
qed

text \<open>
  The array has to hold the image: a grey image of one pixel in an empty array makes
  the first read, \<open>dataR[0]\<close>, a read outside the array.
\<close>

lemma short_array_undefined:
  "stbi_write_jpg_to_func quant stack 1 1 1 (Some []) quality = Undefined"
proof (rule encoder_undefined)
  let ?s = "subsample_of quality"
  have "(mcu_size ?s * int 0, mcu_size ?s * int 0) \<in> set (mcu_origins ?s 1 1)"
    by (rule mcu_origins_mem) (simp_all add: mcu_count_def mcu_size_def)
  then show "(0, 0) \<in> set (mcu_origins ?s 1 1)" by simp
  have "pixel_offset 1 1 1 0 0 \<in> set (mcu_offsets 1 1 1 ?s 0 0)"
    by (rule mcu_offsets_mem) (simp_all add: mcu_size_def)
  then have "Some 0 \<in> set (mcu_offsets 1 1 1 ?s 0 0)" by (simp add: pixel_offset_1x1)
  then have "Option.bind (Some 0) (read_pixel [] 1)
      \<in> (\<lambda>off. Option.bind off (read_pixel [] 1)) ` set (mcu_offsets 1 1 1 ?s 0 0)"
    by (rule imageI)
  then have "None \<in> set (mcu_pixels [] 1 1 1 ?s 0 0)"
    by (simp add: mcu_pixels_def read_pixel_def)
  then show "\<not> mcu_defined [] 1 1 1 ?s (fst (0, 0)) (snd (0, 0))"
    by (simp add: mcu_defined_def)
qed simp_all

lemma encoder_body:
  "\<exists>body. sink (writeBits (writer (scan_end quant stack d width height comp' quality)) fillBits) =
           header width height (subsample_of quality) @ body \<and> stuffed body"
proof -
  have "extends (writer (scan_start width height (subsample_of quality)))
      (writer (scan_end quant stack d width height comp' quality))"
    unfolding scan_end_def case_prod_beta by (rule extends_scan)
  then have "extends (writer (scan_start width height (subsample_of quality)))
      (writeBits (writer (scan_end quant stack d width height comp' quality)) fillBits)"
    using extends_writeBits by (rule extends_trans)
  then show ?thesis by (simp add: extends_def scan_start_def)
qed

text \<open>
  C7. The claim: for every valid input (data not null, width and height at least 1, 1
  to 4 channels) the encoder returns 1 and the sink has received a stream from
  \<open>0xFF 0xD8\<close> to \<open>0xFF 0xD9\<close>. An RGB image of 26755 by 26755 pixels, in an array of
  its \<open>26755 * 26755 * 3\<close> bytes, is a valid input; the offset of its last pixel
  overflows \<open>int\<close> (line 255), so the run has no defined result.
\<close>

theorem stream_framing_overflow:
  "INT_MAX < (26754 * 26755 + 26754) * 3
   \<and> pixel_offset 26755 26755 3 26754 26754 = None
   \<and> length (replicate (26755 * 26755 * 3) (0 :: byte)) = 26755 * 26755 * 3
   \<and> stbi_write_jpg_to_func (\<lambda>d p k. replicate 64 0) (\<lambda>t i. (0, 0)) 26755 26755 3
        (Some (replicate (26755 * 26755 * 3) 0)) 90 = Undefined"
proof -
  have "stbi_write_jpg_to_func (\<lambda>d p k. replicate 64 0) (\<lambda>t i. (0, 0)) 26755 26755 3
        (Some (replicate (26755 * 26755 * 3) 0)) 90 = Undefined"
  proof (rule encoder_undefined)
    show "(26752, 26752) \<in> set (mcu_origins (subsample_of 90) 26755 26755)"
      by (rule last_origin)
    show "\<not> mcu_defined (replicate (26755 * 26755 * 3) 0) 26755 26755 3 (subsample_of 90)
        (fst (26752, 26752)) (snd (26752, 26752))"
      unfolding fst_conv snd_conv by (rule last_mcu_undefined)
  qed simp_all
  moreover have "length (replicate (26755 * 26755 * 3) (0 :: byte)) = 26755 * 26755 * 3"
    by (rule length_replicate)
  moreover have "INT_MAX < (26754 * 26755 + 26754) * 3" by (simp add: INT_MAX_def)
  ultimately show ?thesis using pixel_offset_last by (intro conjI)
qed

text \<open>
  C7, amended. For every valid input whose array holds the \<open>height * width * comp\<close>
  bytes of the image, with that count at most \<open>INT_MAX\<close> and width and height at most
  \<open>INT_MAX - 15\<close>, the encoder returns 1, and the bytes the sink has received are the
  header, which begins with \<open>0xFF 0xD8\<close>, then the stuffed bytes of the scan, which
  end with those that the fill bits \<open>(0x7F, 7)\<close> flush after the last MCU, then
  \<open>0xFF 0xD9\<close>.
\<close>

theorem stream_framing:
  assumes "data = Some d" and "1 \<le> width" and "1 \<le> height" and "1 \<le> comp'" and "comp' \<le> 4"
    and "height * width * comp' \<le> int (length d)"
    and "height * width * comp' \<le> INT_MAX"
    and "width + 15 \<le> INT_MAX" and "height + 15 \<le> INT_MAX"
  shows "\<exists>out body.
           stbi_write_jpg_to_func quant stack width height comp' data quality = Encoded out
         \<and> take 2 out = [0xFF, 0xD8]
         \<and> drop (length out - 2) out = [0xFF, 0xD9]
         \<and> out = sink (writeBits (writer (scan_end quant stack d width height comp' quality))
                         (0x7F, 7))
                 @ [0xFF, 0xD9]
         \<and> out = header width height (subsample_of quality) @ body @ [0xFF, 0xD9]
         \<and> stuffed body"
proof -
  let ?flushed = "sink (writeBits (writer (scan_end quant stack d width height comp' quality)) fillBits)"
  let ?out = "?flushed @ [0xFF, 0xD9]"
  have d: "\<forall>p \<in> set (mcu_origins (subsample_of quality) width height).
      mcu_defined d width height comp' (subsample_of quality) (fst p) (snd p)"
    using image_defined [OF assms(2,3,4,6,7,8,9)] by blast
  have r: "stbi_write_jpg_to_func quant stack width height comp' data quality = Encoded ?out"
    unfolding assms(1) using assms(2-5) d by (intro encoder_output) simp_all
  obtain body where b: "?flushed = header width height (subsample_of quality) @ body" "stuffed body"
    using encoder_body by blast
  have "take 2 ?out = take 2 (header width height (subsample_of quality))"
    unfolding b(1) by (simp add: length_header)
  then have soi: "take 2 ?out = [0xFF, 0xD8]" by (simp only: header_soi)
  have eoi: "drop (length ?out - 2) ?out = [0xFF, 0xD9]" by simp
  have f: "?out = sink (writeBits (writer (scan_end quant stack d width height comp' quality))
                         (0x7F, 7)) @ [0xFF, 0xD9]"
    by (simp add: fillBits_def)
  have "?out = header width height (subsample_of quality) @ body @ [0xFF, 0xD9]"
    using b(1) by simp
  then show ?thesis using r soi eoi f b(2) by blast
qed

theorem stream_framing_witness:
  "(1::int) \<le> 16 \<and> (1::int) \<le> 3 \<and> (3::int) \<le> 4
   \<and> 16 * 16 * 3 \<le> int (length (replicate 768 (0 :: byte)))
   \<and> 16 * 16 * 3 \<le> INT_MAX \<and> 16 + 15 \<le> INT_MAX
   \<and> (\<exists>out body.
         stbi_write_jpg_to_func (\<lambda>d p k. replicate 64 0) (\<lambda>t i. (0, 0)) 16 16 3
           (Some (replicate 768 0)) 75 = Encoded out
       \<and> take 2 out = [0xFF, 0xD8]
       \<and> drop (length out - 2) out = [0xFF, 0xD9]
       \<and> out = header 16 16 True @ body @ [0xFF, 0xD9]
       \<and> stuffed body)"
proof -
  have s: "subsample_of 75" by (simp add: subsample_of_def quality_default_def)
  have h: "(1::int) \<le> 16 \<and> (1::int) \<le> 3 \<and> (3::int) \<le> 4
      \<and> 16 * 16 * 3 \<le> int (length (replicate 768 (0 :: byte)))
      \<and> 16 * 16 * 3 \<le> INT_MAX \<and> 16 + 15 \<le> INT_MAX"
    by (simp add: INT_MAX_def)
  have "\<exists>out body.
         stbi_write_jpg_to_func (\<lambda>d p k. replicate 64 0) (\<lambda>t i. (0, 0)) 16 16 3
           (Some (replicate 768 0)) 75 = Encoded out
       \<and> take 2 out = [0xFF, 0xD8]
       \<and> drop (length out - 2) out = [0xFF, 0xD9]
       \<and> out = sink (writeBits (writer (scan_end (\<lambda>d p k. replicate 64 0) (\<lambda>t i. (0, 0))
                         (replicate 768 0) 16 16 3 75)) (0x7F, 7))
                 @ [0xFF, 0xD9]
       \<and> out = header 16 16 (subsample_of 75) @ body @ [0xFF, 0xD9]
       \<and> stuffed body"
    using h by (intro stream_framing) simp_all
  then obtain out body where
    "stbi_write_jpg_to_func (\<lambda>d p k. replicate 64 0) (\<lambda>t i. (0, 0)) 16 16 3
           (Some (replicate 768 0)) 75 = Encoded out"
    "take 2 out = [0xFF, 0xD8]" "drop (length out - 2) out = [0xFF, 0xD9]"
    "out = header 16 16 (subsample_of 75) @ body @ [0xFF, 0xD9]" "stuffed body"
    by blast
  then have "\<exists>out body.
         stbi_write_jpg_to_func (\<lambda>d p k. replicate 64 0) (\<lambda>t i. (0, 0)) 16 16 3
           (Some (replicate 768 0)) 75 = Encoded out
       \<and> take 2 out = [0xFF, 0xD8]
       \<and> drop (length out - 2) out = [0xFF, 0xD9]
       \<and> out = header 16 16 True @ body @ [0xFF, 0xD9]
       \<and> stuffed body"
    using s by (simp only: eq_True [THEN iffD2]) blast
  then show ?thesis using h by blast
qed

text \<open>
  C6. For every quality in 1 .. 100 the mode depends on the quality alone. Up to 90 it
  is 4:2:0: the sampling byte of the luma component in SOF0 is \<open>0x22\<close>, an MCU is 16
  pixels wide and high and holds four luma units, then one \<open>Cb\<close> and one \<open>Cr\<close>.
  Above 90 it is 4:4:4: the byte is \<open>0x11\<close>, an MCU is 8 pixels wide and high and
  holds one unit of each channel. On a valid input whose array holds the bytes of the
  image, their count at most \<open>INT_MAX\<close>, the byte is the one at position 165 of the
  stream, and the scan encodes those units for each MCU in raster order.
\<close>

theorem subsampling_mode:
  assumes "1 \<le> quality" and "quality \<le> 100"
  shows "(quality \<le> 90 \<longrightarrow>
            subsample_of quality
          \<and> head1 width height (subsample_of quality) ! 11 = 0x22
          \<and> mcu_size (subsample_of quality) = 16
          \<and> mcu_units (subsample_of quality) =
               [(ChY, 0), (ChY, 1), (ChY, 2), (ChY, 3), (ChCb, 4), (ChCr, 5)])
       \<and> (90 < quality \<longrightarrow>
            \<not> subsample_of quality
          \<and> head1 width height (subsample_of quality) ! 11 = 0x11
          \<and> mcu_size (subsample_of quality) = 8
          \<and> mcu_units (subsample_of quality) = [(ChY, 0), (ChCb, 1), (ChCr, 2)])
       \<and> (data = Some d \<and> 1 \<le> width \<and> 1 \<le> height \<and> 1 \<le> comp' \<and> comp' \<le> 4
          \<and> height * width * comp' \<le> int (length d) \<and> height * width * comp' \<le> INT_MAX
          \<and> width + 15 \<le> INT_MAX \<and> height + 15 \<le> INT_MAX \<longrightarrow>
            (\<exists>out. stbi_write_jpg_to_func quant stack width height comp' data quality = Encoded out
               \<and> out ! 165 = (if quality \<le> 90 then 0x22 else 0x11)
               \<and> out = sink (writeBits (writer
                     (foldl (\<lambda>s (x, y). foldl (encode_unit quant stack quality
                                      (map the (mcu_pixels d width height comp' (quality \<le> 90) x y))) s
                                           (mcu_units (quality \<le> 90)))
                        (scan_start width height (quality \<le> 90))
                        (mcu_origins (quality \<le> 90) width height))) fillBits)
                   @ [0xFF, 0xD9]))"
proof -
  have sub: "subsample_of quality = (quality \<le> 90)"
    using assms by (simp add: subsample_of_def quality_default_def)
  have modes: "(quality \<le> 90 \<longrightarrow>
            subsample_of quality
          \<and> head1 width height (subsample_of quality) ! 11 = 0x22
          \<and> mcu_size (subsample_of quality) = 16
          \<and> mcu_units (subsample_of quality) =
               [(ChY, 0), (ChY, 1), (ChY, 2), (ChY, 3), (ChCb, 4), (ChCr, 5)])
       \<and> (90 < quality \<longrightarrow>
            \<not> subsample_of quality
          \<and> head1 width height (subsample_of quality) ! 11 = 0x11
          \<and> mcu_size (subsample_of quality) = 8
          \<and> mcu_units (subsample_of quality) = [(ChY, 0), (ChCb, 1), (ChCr, 2)])"
    unfolding sub by (simp add: head1_def mcu_size_def mcu_units_def)
  have enc: "\<exists>out. stbi_write_jpg_to_func quant stack width height comp' data quality = Encoded out
               \<and> out ! 165 = (if quality \<le> 90 then 0x22 else 0x11)
               \<and> out = sink (writeBits (writer
                     (foldl (\<lambda>s (x, y). foldl (encode_unit quant stack quality
                                      (map the (mcu_pixels d width height comp' (quality \<le> 90) x y))) s
                                           (mcu_units (quality \<le> 90)))
                        (scan_start width height (quality \<le> 90))
                        (mcu_origins (quality \<le> 90) width height))) fillBits)
                   @ [0xFF, 0xD9]"
    if v: "data = Some d \<and> 1 \<le> width \<and> 1 \<le> height \<and> 1 \<le> comp' \<and> comp' \<le> 4
          \<and> height * width * comp' \<le> int (length d) \<and> height * width * comp' \<le> INT_MAX
          \<and> width + 15 \<le> INT_MAX \<and> height + 15 \<le> INT_MAX"
  proof -
    have "mcu_defined d width height comp' (subsample_of quality) (fst p) (snd p)"
      if "p \<in> set (mcu_origins (subsample_of quality) width height)" for p
      using v that by (intro image_defined) simp_all
    then have d: "\<forall>p \<in> set (mcu_origins (subsample_of quality) width height).
        mcu_defined d width height comp' (subsample_of quality) (fst p) (snd p)"
      by blast
    have data: "data = Some d" using v by simp
    let ?flushed = "sink (writeBits (writer (scan_end quant stack d width height comp' quality)) fillBits)"
    have r: "stbi_write_jpg_to_func quant stack width height comp' data quality =
        Encoded (?flushed @ [0xFF, 0xD9])"
      unfolding data using v d by (intro encoder_output) auto
    obtain body where b: "?flushed = header width height (subsample_of quality) @ body"
      using encoder_body by blast
    have "(?flushed @ [0xFF, 0xD9]) ! 165 = header width height (subsample_of quality) ! 165"
      unfolding b by (simp add: nth_append length_header)
    then have flag: "(?flushed @ [0xFF, 0xD9]) ! 165 = (if quality \<le> 90 then 0x22 else 0x11)"
      by (simp add: header_sampling sub)
    have se: "scan_end quant stack d width height comp' quality =
        foldl (\<lambda>s (x, y). foldl (encode_unit quant stack quality
                                      (map the (mcu_pixels d width height comp' (quality \<le> 90) x y))) s (mcu_units (quality \<le> 90)))
          (scan_start width height (quality \<le> 90)) (mcu_origins (quality \<le> 90) width height)"
      by (simp add: scan_end_def sub encode_mcu_def)
    show ?thesis using r flag unfolding se by blast
  qed
  show ?thesis using modes enc by blast
qed

theorem subsampling_mode_witness:
  "(1::int) \<le> 75 \<and> (75::int) \<le> 100 \<and> (75::int) \<le> 90
   \<and> subsample_of 75 \<and> head1 17 9 (subsample_of 75) ! 11 = 0x22
   \<and> mcu_size (subsample_of 75) = 16
   \<and> (1::int) \<le> 95 \<and> (95::int) \<le> 100 \<and> (90::int) < 95
   \<and> \<not> subsample_of 95 \<and> head1 17 9 (subsample_of 95) ! 11 = 0x11
   \<and> mcu_size (subsample_of 95) = 8
   \<and> (1::int) \<le> 17 \<and> (1::int) \<le> 9 \<and> (1::int) \<le> 3 \<and> (3::int) \<le> 4
   \<and> 9 * 17 * 3 \<le> int (length (replicate 459 (0 :: byte)))
   \<and> 9 * 17 * 3 \<le> INT_MAX \<and> 17 + 15 \<le> INT_MAX \<and> 9 + 15 \<le> INT_MAX
   \<and> (\<exists>out. stbi_write_jpg_to_func (\<lambda>d p k. replicate 64 0) (\<lambda>t i. (0, 0)) 17 9 3
               (Some (replicate 459 0)) 95 = Encoded out
         \<and> out ! 165 = 0x11)"
proof -
  have a: "(1::int) \<le> 75" "(75::int) \<le> 100" and b: "(1::int) \<le> 95" "(95::int) \<le> 100" by simp_all
  note t75 = subsampling_mode [OF a, where width = 17 and height = 9 and comp' = 3
      and data = "Some (replicate 459 0)" and d = "replicate 459 0"
      and quant = "\<lambda>d p k. replicate 64 0" and stack = "\<lambda>t i. (0, 0)"]
  note t95 = subsampling_mode [OF b, where width = 17 and height = 9 and comp' = 3
      and data = "Some (replicate 459 0)" and d = "replicate 459 0"
      and quant = "\<lambda>d p k. replicate 64 0" and stack = "\<lambda>t i. (0, 0)"]
  have c75: "(75::int) \<le> 90" and c95: "(90::int) < 95" by simp_all
  have v: "Some (replicate 459 (0 :: byte)) = Some (replicate 459 0)
      \<and> (1::int) \<le> 17 \<and> (1::int) \<le> 9 \<and> (1::int) \<le> 3 \<and> (3::int) \<le> 4
      \<and> 9 * 17 * 3 \<le> int (length (replicate 459 (0 :: byte)))
      \<and> 9 * 17 * 3 \<le> INT_MAX \<and> 17 + 15 \<le> INT_MAX \<and> 9 + 15 \<le> INT_MAX"
    by (simp add: INT_MAX_def)
  have "subsample_of 75 \<and> head1 17 9 (subsample_of 75) ! 11 = 0x22 \<and> mcu_size (subsample_of 75) = 16"
    using t75 c75 by blast
  moreover have "\<not> subsample_of 95 \<and> head1 17 9 (subsample_of 95) ! 11 = 0x11 \<and> mcu_size (subsample_of 95) = 8"
    using t95 c95 by blast
  moreover have "\<exists>out. stbi_write_jpg_to_func (\<lambda>d p k. replicate 64 0) (\<lambda>t i. (0, 0)) 17 9 3
               (Some (replicate 459 0)) 95 = Encoded out
         \<and> out ! 165 = 0x11"
  proof -
    obtain out where "stbi_write_jpg_to_func (\<lambda>d p k. replicate 64 0) (\<lambda>t i. (0, 0)) 17 9 3
               (Some (replicate 459 0)) 95 = Encoded out"
      and "out ! 165 = (if (95::int) \<le> 90 then 0x22 else 0x11)"
      using t95 v by blast
    then show ?thesis by simp
  qed
  ultimately show ?thesis using a b c75 c95 v by blast
qed

end
